theory Spec2Isabelle
  imports Main "HOL-Library.Word"
begin

section \<open>The thread pool of \<^verbatim>\<open>os_threadpool.c\<close>\<close>

subsection \<open>Tasks\<close>

text \<open>
  Addresses of heap blocks and of functions are natural numbers. \<^verbatim>\<open>unsigned int\<close> is a
  32-bit word, so \<^verbatim>\<open>num_threads - 1\<close> wraps as it does in C.
\<close>

type_synonym addr = nat
type_synonym fnptr = nat
type_synonym uint = "32 word"

text \<open>
  A non-null \<^verbatim>\<open>os_task_t *\<close>: the address of the block that \<^verbatim>\<open>create_task\<close> got from
  \<^verbatim>\<open>malloc\<close>, together with the three fields stored there. The pool never writes the
  fields after \<^verbatim>\<open>create_task\<close>; the list node inside the task is the queue below.
  A null \<^verbatim>\<open>destroy_arg\<close> is \<open>None\<close>.
\<close>

record os_task =
  task_at :: addr
  action :: fnptr
  argument :: addr
  destroy_arg :: "fnptr option"

text \<open>
  What a thread does to the world outside the pool's own fields: the calls through the
  two function pointers of a task, and \<^verbatim>\<open>free\<close> of the task's block.
\<close>

datatype effect =
    Call_action os_task
  | Call_destroy_arg os_task
  | Free_task os_task

text \<open>
  \<^verbatim>\<open>create_task\<close>, lines 13-25. \<open>p\<close> is the block \<^verbatim>\<open>malloc\<close> returned; on a null
  result \<^verbatim>\<open>DIE\<close> ends the process, so the function returns only for a block.
\<close>

definition create_task :: "addr \<Rightarrow> fnptr \<Rightarrow> addr \<Rightarrow> fnptr option \<Rightarrow> os_task" where
  "create_task p act arg dtor =
     \<lparr>task_at = p, action = act, argument = arg, destroy_arg = dtor\<rparr>"

text \<open>\<^verbatim>\<open>destroy_task\<close>, lines 28-33: the effects of one call, in order.\<close>

definition destroy_task :: "os_task \<Rightarrow> effect list" where
  "destroy_task t =
     (if destroy_arg t \<noteq> None then [Call_destroy_arg t] else []) @ [Free_task t]"

subsection \<open>The queue and the pool's fields\<close>

text \<open>
  The circular list at \<^verbatim>\<open>tp->head\<close> is the list of its tasks from \<^verbatim>\<open>head.next\<close> to
  \<^verbatim>\<open>head.prev\<close>. \<^verbatim>\<open>waiting_threads\<close> and \<^verbatim>\<open>stop_work\<close> are declared in
  \<^verbatim>\<open>os_threadpool.h\<close>, which is not among the sources: the counter is taken to be an
  \<^verbatim>\<open>unsigned int\<close> like \<^verbatim>\<open>num_threads\<close> (line 92 compares the two as unsigned values
  in either case), and the flag, which only ever holds 0 or 1, is a \<open>bool\<close>.
\<close>

record os_threadpool =
  num_threads :: uint
  head :: "os_task list"
  waiting_threads :: uint
  stop_work :: bool

text \<open>
  Modelled from the spec: \<^verbatim>\<open>list_add\<close> of \<^verbatim>\<open>os_list.h\<close>, which is not among the
  sources. The spec's enqueue appends to \<open>pending\<close> and its dequeue takes the oldest
  entry; \<^verbatim>\<open>dequeue_task\<close> takes \<^verbatim>\<open>head.prev\<close>, so \<^verbatim>\<open>list_add\<close> links the new node at the
  other end, right after the head.
\<close>

definition list_add :: "os_task list \<Rightarrow> os_task \<Rightarrow> os_task list" where
  "list_add h t = t # h"

text \<open>\<^verbatim>\<open>queue_is_empty\<close>, lines 39-42.\<close>

definition queue_is_empty :: "os_threadpool \<Rightarrow> bool" where
  "queue_is_empty tp = (head tp = [])"

text \<open>
  How a call can fail: an \<^verbatim>\<open>assert\<close> that does not hold, and the two reads of
  \<^verbatim>\<open>process_graph\<close> that C leaves undefined (a pointer to no block, an index past the
  arrays of the graph).
\<close>

datatype error = Assert_failed | Bad_pointer | Out_of_bounds

text \<open>
  \<^verbatim>\<open>enqueue_task\<close>, lines 45-67. The locked part first: the result says whether
  \<^verbatim>\<open>pthread_cond_signal(&tp->cond_queue)\<close> was issued (line 60 tests the queue before
  the task is linked), and gives the pool after line 64.
\<close>

definition enqueue_locked :: "os_threadpool \<Rightarrow> os_task \<Rightarrow> bool \<times> os_threadpool" where
  "enqueue_locked tp t = (queue_is_empty tp, tp\<lparr>head := list_add (head tp) t\<rparr>)"

text \<open>The two assertions of lines 47-48 come first; a null pointer is \<open>None\<close>.\<close>

definition enqueue_task ::
  "os_threadpool option \<Rightarrow> os_task option \<Rightarrow> error + (bool \<times> os_threadpool)" where
  "enqueue_task tpo topt =
     (case tpo of
        None \<Rightarrow> Inl Assert_failed
      | Some tp \<Rightarrow>
          (case topt of
             None \<Rightarrow> Inl Assert_failed
           | Some t \<Rightarrow> Inr (enqueue_locked tp t)))"

subsection \<open>\<^verbatim>\<open>dequeue_task\<close>, statement by statement\<close>

text \<open>
  The condition of line 92, which also decides the broadcast of line 94. The subtraction
  is the unsigned one of C.
\<close>

definition dequeue_is_last :: "os_threadpool \<Rightarrow> bool" where
  "dequeue_is_last tp = (waiting_threads tp = num_threads tp - 1)"

text \<open>Lines 92-95.\<close>

definition dequeue_check_last :: "os_threadpool \<Rightarrow> os_threadpool" where
  "dequeue_check_last tp = (if dequeue_is_last tp then tp\<lparr>stop_work := True\<rparr> else tp)"

text \<open>Line 97.\<close>

definition dequeue_announce :: "os_threadpool \<Rightarrow> os_threadpool" where
  "dequeue_announce tp = tp\<lparr>waiting_threads := waiting_threads tp + 1\<rparr>"

text \<open>The loop condition of line 99.\<close>

definition dequeue_must_wait :: "os_threadpool \<Rightarrow> bool" where
  "dequeue_must_wait tp = (queue_is_empty tp \<and> \<not> stop_work tp)"

text \<open>
  Lines 106-118: the task at \<^verbatim>\<open>head.prev\<close> is unlinked when there is one, the counter
  is decremented, and \<open>t\<close> (\<open>None\<close> for the initial \<^verbatim>\<open>NULL\<close>) is what the call returns.
\<close>

definition dequeue_take :: "os_threadpool \<Rightarrow> os_task option \<times> os_threadpool" where
  "dequeue_take tp =
     (if \<not> queue_is_empty tp
      then (Some (last (head tp)),
            tp\<lparr>head := butlast (head tp), waiting_threads := waiting_threads tp - 1\<rparr>)
      else (None, tp\<lparr>waiting_threads := waiting_threads tp - 1\<rparr>))"

text \<open>
  A call either returns or blocks in \<^verbatim>\<open>pthread_cond_wait\<close>, which gives the mutex up.
  Between two such points the caller holds \<^verbatim>\<open>tp->mutex\<close>, so what it does there is
  one step for every other thread.
\<close>

datatype 'a outcome = Blocked | Returns 'a

text \<open>From the wait loop on: line 99, then either line 103 or lines 106-122.\<close>

definition dequeue_task_resume ::
  "os_threadpool \<Rightarrow> os_task option outcome \<times> os_threadpool" where
  "dequeue_task_resume tp =
     (if dequeue_must_wait tp then (Blocked, tp)
      else (Returns (fst (dequeue_take tp)), snd (dequeue_take tp)))"

text \<open>From the call to the first wait or to the return: lines 86-97, then the loop.\<close>

definition dequeue_task_enter ::
  "os_threadpool \<Rightarrow> os_task option outcome \<times> os_threadpool" where
  "dequeue_task_enter tp = dequeue_task_resume (dequeue_announce (dequeue_check_last tp))"

text \<open>The loop condition of \<^verbatim>\<open>wait_for_completion\<close>, line 150.\<close>

definition wait_must_wait :: "os_threadpool \<Rightarrow> bool" where
  "wait_must_wait tp = (\<not> queue_is_empty tp \<and> \<not> stop_work tp)"

text \<open>
  \<^verbatim>\<open>create_threadpool\<close>, lines 165-197: the fields after the initialisation. The threads
  it starts are part of the system state below.
\<close>

definition create_threadpool :: "uint \<Rightarrow> os_threadpool" where
  "create_threadpool n =
     \<lparr>num_threads = n, head = [], waiting_threads = 0, stop_work = False\<rparr>"

text \<open>
  \<^verbatim>\<open>destroy_threadpool\<close>, lines 200-220: \<^verbatim>\<open>list_for_each_safe\<close> walks the queue from
  \<^verbatim>\<open>head.next\<close> and destroys every task left in it.
\<close>

definition destroy_threadpool :: "os_threadpool \<Rightarrow> effect list \<times> os_threadpool" where
  "destroy_threadpool tp = (concat (map destroy_task (head tp)), tp\<lparr>head := []\<rparr>)"

section \<open>The pool with its threads\<close>

text \<open>
  Where a worker stands in \<^verbatim>\<open>thread_loop_function\<close> (lines 126-141): about to call
  \<^verbatim>\<open>dequeue_task\<close>; inside \<^verbatim>\<open>pthread_cond_wait\<close> on \<^verbatim>\<open>cond_queue\<close> (the flag says
  whether a signal or a broadcast has unblocked it since it began to wait); holding the
  task that \<^verbatim>\<open>dequeue_task\<close> returned, with the task's action running; or out of the
  loop, after \<^verbatim>\<open>dequeue_task\<close> returned \<^verbatim>\<open>NULL\<close>.
\<close>

datatype wstate = At_loop | In_wait bool | Has_task os_task | Returned

text \<open>
  Where the thread that created the pool stands: free to submit tasks; inside the wait of
  \<^verbatim>\<open>wait_for_completion\<close> on \<^verbatim>\<open>work_done\<close> (line 154, with the same flag); at the
  joins of lines 160-161; back from \<^verbatim>\<open>wait_for_completion\<close>; back from
  \<^verbatim>\<open>destroy_threadpool\<close>.
\<close>

datatype mstate = M_running | M_wait bool | M_join | M_joined | M_destroyed

text \<open>
  \<open>brk\<close> is the next block \<^verbatim>\<open>malloc\<close> hands out (no block is handed out twice, so
  an address names one allocation). \<open>submitted\<close> lists the tasks passed to
  \<^verbatim>\<open>enqueue_task\<close> so far and \<open>trace\<close> the effects so far, both oldest first.
\<close>

record sys =
  pool :: os_threadpool
  workers :: "wstate list"
  main_at :: mstate
  brk :: addr
  submitted :: "os_task list"
  trace :: "effect list"

datatype thread = Main | Worker nat

text \<open>
  One move is what one thread does from one point where it takes \<^verbatim>\<open>tp->mutex\<close> (or
  returns from a wait, which takes it again) to the next point where it gives the mutex
  up, together with the thread's own work around it.
  \<^item> \<open>Enqueue th f a d k\<close>: thread \<open>th\<close> calls
    \<^verbatim>\<open>enqueue_task(tp, create_task(f, a, d))\<close>; \<open>k\<close> is the waiting worker that the
    signal of line 61 unblocks, when it is issued and a worker is blocked.
  \<^item> \<open>Dequeue i\<close>: worker \<open>i\<close> calls \<^verbatim>\<open>dequeue_task\<close>.
  \<^item> \<open>Wake i\<close>: worker \<open>i\<close>, unblocked, returns from the wait of line 103;
    \<open>Spurious i\<close>: it returns from that wait without having been unblocked, which
    POSIX allows.
  \<^item> \<open>Finish i\<close>: the action of worker \<open>i\<close>'s task returns and the worker calls
    \<^verbatim>\<open>destroy_task\<close> (lines 136-137).
  \<^item> \<open>Wait\<close>: the main thread calls \<^verbatim>\<open>wait_for_completion\<close>; \<open>Main_wake\<close> and
    \<open>Main_spurious\<close> are its returns from the wait of line 154; \<open>Join\<close> is the
    return of the last \<^verbatim>\<open>pthread_join\<close>; \<open>Destroy\<close> is \<^verbatim>\<open>destroy_threadpool\<close>.
\<close>

datatype move =
    Enqueue thread fnptr addr "fnptr option" nat
  | Dequeue nat
  | Wake nat
  | Spurious nat
  | Finish nat
  | Wait
  | Main_wake
  | Main_spurious
  | Join
  | Destroy

fun in_wait :: "wstate \<Rightarrow> bool" where
  "in_wait (In_wait b) = True"
| "in_wait w = False"

fun has_task :: "wstate \<Rightarrow> bool" where
  "has_task (Has_task t) = True"
| "has_task w = False"

text \<open>
  \<^verbatim>\<open>pthread_cond_signal\<close> on \<^verbatim>\<open>cond_queue\<close> unblocks worker \<open>k\<close>, which has to be a
  blocked one when there is any; with no worker blocked it does nothing.
\<close>

definition cond_signal :: "nat \<Rightarrow> wstate list \<Rightarrow> wstate list option" where
  "cond_signal k ws =
     (if k < length ws \<and> ws ! k = In_wait False then Some (ws[k := In_wait True])
      else if In_wait False \<in> set ws then None
      else Some ws)"

text \<open>\<^verbatim>\<open>pthread_cond_broadcast\<close> on \<^verbatim>\<open>cond_queue\<close> unblocks every waiting worker.\<close>

definition cond_broadcast :: "wstate list \<Rightarrow> wstate list" where
  "cond_broadcast ws = map (\<lambda>w. if in_wait w then In_wait True else w) ws"

text \<open>\<^verbatim>\<open>pthread_cond_signal\<close> on \<^verbatim>\<open>work_done\<close>: only the main thread waits there.\<close>

definition signal_work_done :: "mstate \<Rightarrow> mstate" where
  "signal_work_done m = (if m = M_wait False then M_wait True else m)"

text \<open>Who may call \<^verbatim>\<open>enqueue_task\<close>: the main thread before it waits, and a running action.\<close>

fun may_enqueue :: "thread \<Rightarrow> sys \<Rightarrow> bool" where
  "may_enqueue Main s = (main_at s = M_running)"
| "may_enqueue (Worker i) s = (i < length (workers s) \<and> has_task (workers s ! i))"

text \<open>
  A worker leaves \<^verbatim>\<open>dequeue_task\<close>: blocked at line 103, out of the loop on \<^verbatim>\<open>NULL\<close>
  (lines 134-135), or with a task, in which case line 112 has signalled \<^verbatim>\<open>work_done\<close>.
\<close>

fun leave_dequeue ::
  "nat \<Rightarrow> wstate list \<Rightarrow> os_task option outcome \<times> os_threadpool \<Rightarrow> sys \<Rightarrow> sys" where
  "leave_dequeue i ws (Blocked, tp) s = s\<lparr>pool := tp, workers := ws[i := In_wait False]\<rparr>"
| "leave_dequeue i ws (Returns None, tp) s = s\<lparr>pool := tp, workers := ws[i := Returned]\<rparr>"
| "leave_dequeue i ws (Returns (Some t), tp) s =
     s\<lparr>pool := tp, workers := ws[i := Has_task t], main_at := signal_work_done (main_at s)\<rparr>"

text \<open>The main thread after the loop condition of line 150.\<close>

definition wait_for_completion_loop :: "sys \<Rightarrow> sys" where
  "wait_for_completion_loop s =
     s\<lparr>main_at := (if wait_must_wait (pool s) then M_wait False else M_join)\<rparr>"

fun step :: "move \<Rightarrow> sys \<Rightarrow> sys option" where
  "step (Enqueue th f a d k) s =
     (if may_enqueue th s then
        (let t = create_task (brk s) f a d in
         case enqueue_task (Some (pool s)) (Some t) of
           Inl e \<Rightarrow> None
         | Inr (signalled, tp) \<Rightarrow>
             (case (if signalled then cond_signal k (workers s) else Some (workers s)) of
                None \<Rightarrow> None
              | Some ws \<Rightarrow>
                  Some (s\<lparr>pool := tp, workers := ws, brk := Suc (brk s),
                          submitted := submitted s @ [t]\<rparr>)))
      else None)"
| "step (Dequeue i) s =
     (if i < length (workers s) \<and> workers s ! i = At_loop then
        Some (leave_dequeue i
               (if dequeue_is_last (pool s) then cond_broadcast (workers s) else workers s)
               (dequeue_task_enter (pool s)) s)
      else None)"
| "step (Wake i) s =
     (if i < length (workers s) \<and> workers s ! i = In_wait True then
        Some (leave_dequeue i (workers s) (dequeue_task_resume (pool s)) s)
      else None)"
| "step (Spurious i) s =
     (if i < length (workers s) \<and> workers s ! i = In_wait False then
        Some (leave_dequeue i (workers s) (dequeue_task_resume (pool s)) s)
      else None)"
| "step (Finish i) s =
     (if i < length (workers s) then
        (case workers s ! i of
           Has_task t \<Rightarrow>
             Some (s\<lparr>workers := (workers s)[i := At_loop],
                     trace := trace s @ Call_action t # destroy_task t\<rparr>)
         | _ \<Rightarrow> None)
      else None)"
| "step Wait s = (if main_at s = M_running then Some (wait_for_completion_loop s) else None)"
| "step Main_wake s = (if main_at s = M_wait True then Some (wait_for_completion_loop s) else None)"
| "step Main_spurious s = (if main_at s = M_wait False then Some (wait_for_completion_loop s) else None)"
| "step Join s =
     (if main_at s = M_join \<and> list_all (\<lambda>w. w = Returned) (workers s)
      then Some (s\<lparr>main_at := M_joined\<rparr>) else None)"
| "step Destroy s =
     (if main_at s = M_joined then
        Some (s\<lparr>pool := snd (destroy_threadpool (pool s)),
                trace := trace s @ fst (destroy_threadpool (pool s)),
                main_at := M_destroyed\<rparr>)
      else None)"

text \<open>A schedule is a list of moves; it runs as far as every move is enabled.\<close>

fun run :: "move list \<Rightarrow> sys \<Rightarrow> sys option" where
  "run [] s = Some s"
| "run (m # ms) s = (case step m s of None \<Rightarrow> None | Some s' \<Rightarrow> run ms s')"

text \<open>
  The state in which \<^verbatim>\<open>create_threadpool(n)\<close> returns: \<open>n\<close> threads started
  (lines 191-194), each at the top of its loop. Blocks below \<open>b\<close> are in use.
\<close>

definition start :: "uint \<Rightarrow> addr \<Rightarrow> sys" where
  "start n b =
     \<lparr>pool = create_threadpool n, workers = replicate (unat n) At_loop,
      main_at = M_running, brk = b, submitted = [], trace = []\<rparr>"

section \<open>The traversal of \<^verbatim>\<open>parallel.c\<close>\<close>

text \<open>
  The graph types are declared in \<^verbatim>\<open>os_graph.h\<close>, which is not among the sources; the
  code reads \<^verbatim>\<open>info\<close>, \<^verbatim>\<open>num_neighbours\<close> and \<^verbatim>\<open>neighbours\<close> of a node, \<^verbatim>\<open>nodes\<close> and
  \<^verbatim>\<open>visited\<close> of the graph, and the marks \<^verbatim>\<open>NOT_VISITED\<close> and \<^verbatim>\<open>DONE\<close>. An array is
  the list of its elements (\<^verbatim>\<open>num_neighbours\<close> is the length of \<open>neighbours\<close>), and
  \<^verbatim>\<open>int\<close> is a 32-bit word, read as signed when it is printed.
\<close>

datatype visit = NOT_VISITED | PROCESSING | DONE

record os_node =
  info :: "32 word"
  neighbours :: "uint list"

record os_graph =
  nodes :: "os_node list"
  visited :: "visit list"

text \<open>The statics \<^verbatim>\<open>sum\<close> and \<^verbatim>\<open>graph\<close> of lines 16-17.\<close>

record globals =
  sum_g :: "32 word"
  graph :: os_graph

text \<open>
  \<^verbatim>\<open>process_graph\<close>, lines 27-55, without the calls it makes: \<open>mem\<close> is the heap of
  \<^verbatim>\<open>unsigned int\<close> blocks, \<open>arg\<close> the argument. The result is the statics after the
  call and the indices passed to \<^verbatim>\<open>process_node\<close> by the loop of lines 51-52, in order.
\<close>

definition process_graph ::
  "(addr \<Rightarrow> uint option) \<Rightarrow> addr \<Rightarrow> globals \<Rightarrow> error + (globals \<times> uint list)" where
  "process_graph mem arg g =
     (case mem arg of
        None \<Rightarrow> Inl Bad_pointer
      | Some idx \<Rightarrow>
          if length (visited (graph g)) \<le> unat idx \<or> length (nodes (graph g)) \<le> unat idx
          then Inl Out_of_bounds
          else if visited (graph g) ! unat idx \<noteq> NOT_VISITED then Inr (g, [])
          else
            Inr (g\<lparr>graph := (graph g)\<lparr>visited := (visited (graph g))[unat idx := DONE]\<rparr>,
                    sum_g := sum_g g + info (nodes (graph g) ! unat idx)\<rparr>,
                 neighbours (nodes (graph g) ! unat idx)))"

text \<open>
  The whole program: the pool with its threads, the statics, the heap of
  \<^verbatim>\<open>unsigned int\<close> blocks, the holder of the graph \<^verbatim>\<open>mutex\<close> of line 24 with the
  neighbours its loop has still to pass to \<^verbatim>\<open>process_node\<close>, whether \<^verbatim>\<open>main\<close> is past
  line 92, and what line 96 printed.
\<close>

record prog =
  tpsys :: sys
  globs :: globals
  cells :: "addr \<Rightarrow> uint option"
  mutex :: "(nat \<times> uint list) option"
  seeded :: bool
  printed :: "32 word option"

text \<open>The address of \<^verbatim>\<open>process_graph\<close>, the only function the program stores in a task.\<close>

definition process_graph_fn :: fnptr where
  "process_graph_fn = 1"

definition NUM_THREADS :: uint where
  "NUM_THREADS = 4"

text \<open>
  \<^verbatim>\<open>process_node\<close>, lines 57-72, called by thread \<open>th\<close>: a block for the index, then
  the task (with a null \<^verbatim>\<open>destroy_arg\<close>), then \<^verbatim>\<open>enqueue_task\<close>.
\<close>

definition process_node :: "thread \<Rightarrow> nat \<Rightarrow> uint \<Rightarrow> prog \<Rightarrow> prog option" where
  "process_node th k idx s =
     (let p = brk (tpsys s) in
      case step (Enqueue th process_graph_fn p None k) ((tpsys s)\<lparr>brk := Suc p\<rparr>) of
        None \<Rightarrow> None
      | Some y \<Rightarrow> Some (s\<lparr>tpsys := y, cells := (cells s)(p \<mapsto> idx)\<rparr>))"

text \<open>A move of the pool made by the program.\<close>

definition pool_move :: "move \<Rightarrow> prog \<Rightarrow> prog option" where
  "pool_move m s = (case step m (tpsys s) of None \<Rightarrow> None | Some y \<Rightarrow> Some (s\<lparr>tpsys := y\<rparr>))"

text \<open>
  A worker that holds a task is in \<^verbatim>\<open>t->action(t->argument)\<close>, line 136. It takes the
  graph mutex and runs lines 29-48 (blocked while another worker holds the mutex), then
  makes the calls of the loop one at a time, then unlocks, returns and destroys the task.
\<close>

definition run_action :: "nat \<Rightarrow> nat \<Rightarrow> os_task \<Rightarrow> prog \<Rightarrow> prog option" where
  "run_action i k t s =
     (case mutex s of
        None \<Rightarrow>
          (if action t = process_graph_fn then
             (case process_graph (cells s) (argument t) (globs s) of
                Inl e \<Rightarrow> None
              | Inr (g, ns) \<Rightarrow> Some (s\<lparr>globs := g, mutex := Some (i, ns)\<rparr>))
           else None)
      | Some (j, ns) \<Rightarrow>
          (if j \<noteq> i then None
           else (case ns of
                   [] \<Rightarrow> pool_move (Finish i) (s\<lparr>mutex := None\<rparr>)
                 | n # ns' \<Rightarrow> process_node (Worker i) k n (s\<lparr>mutex := Some (i, ns')\<rparr>))))"

text \<open>
  The moves of the program: the next move of worker \<open>i\<close> or of \<^verbatim>\<open>main\<close> (\<open>k\<close> is the
  worker a signal unblocks, as above), and the spurious returns from the two waits.
\<close>

datatype pmove = P_worker nat nat | P_main nat | P_spurious nat | P_main_spurious

text \<open>\<^verbatim>\<open>main\<close> from line 92 on.\<close>

definition main_move :: "nat \<Rightarrow> prog \<Rightarrow> prog option" where
  "main_move k s =
     (case main_at (tpsys s) of
        M_running \<Rightarrow>
          (if seeded s then pool_move Wait s
           else process_node Main k 0 (s\<lparr>seeded := True\<rparr>))
      | M_wait b \<Rightarrow> (if b then pool_move Main_wake s else None)
      | M_join \<Rightarrow> pool_move Join s
      | M_joined \<Rightarrow>
          (case pool_move Destroy s of
             None \<Rightarrow> None
           | Some s' \<Rightarrow> Some (s'\<lparr>printed := Some (sum_g (globs s'))\<rparr>))
      | M_destroyed \<Rightarrow> None)"

fun pstep :: "pmove \<Rightarrow> prog \<Rightarrow> prog option" where
  "pstep (P_worker i k) s =
     (if i < length (workers (tpsys s)) then
        (case workers (tpsys s) ! i of
           At_loop \<Rightarrow> pool_move (Dequeue i) s
         | In_wait b \<Rightarrow> (if b then pool_move (Wake i) s else None)
         | Has_task t \<Rightarrow> run_action i k t s
         | Returned \<Rightarrow> None)
      else None)"
| "pstep (P_main k) s = main_move k s"
| "pstep (P_spurious i) s = pool_move (Spurious i) s"
| "pstep P_main_spurious s = pool_move Main_spurious s"

fun prun :: "pmove list \<Rightarrow> prog \<Rightarrow> prog option" where
  "prun [] s = Some s"
| "prun (m # ms) s = (case pstep m s of None \<Rightarrow> None | Some s' \<Rightarrow> prun ms s')"

text \<open>
  \<^verbatim>\<open>main\<close> up to line 91, for the graph \<open>gr\<close> read from the file and a pool of \<open>n\<close>
  threads (the program's own \<open>n\<close> is \<open>NUM_THREADS\<close>).
\<close>

definition prog_start :: "os_graph \<Rightarrow> uint \<Rightarrow> prog" where
  "prog_start gr n =
     \<lparr>tpsys = start n 0, globs = \<lparr>sum_g = 0, graph = gr\<rparr>, cells = Map.empty,
      mutex = None, seeded = False, printed = None\<rparr>"

text \<open>
  The graph of the end-to-end scenario: nodes A to E are 0 to 4 with values 1 to 5, and
  the edges go from A to B, from B to C, from C to A, from C to D and from D to E.
\<close>

definition five_nodes :: os_graph where
  "five_nodes =
     \<lparr>nodes = [\<lparr>info = 1, neighbours = [1]\<rparr>, \<lparr>info = 2, neighbours = [2]\<rparr>,
               \<lparr>info = 3, neighbours = [0, 3]\<rparr>, \<lparr>info = 4, neighbours = [4]\<rparr>,
               \<lparr>info = 5, neighbours = []\<rparr>],
      visited = replicate 5 NOT_VISITED\<rparr>"

section \<open>Notions the properties are stated with\<close>

text \<open>
  The spec's \<open>pending\<close>: the queue in the order in which \<^verbatim>\<open>dequeue_task\<close> empties it,
  from \<^verbatim>\<open>head.prev\<close> back to \<^verbatim>\<open>head.next\<close>.
\<close>

definition pending :: "os_threadpool \<Rightarrow> os_task list" where
  "pending tp = rev (head tp)"

text \<open>The pool after the calls \<^verbatim>\<open>enqueue_task(tp, t)\<close> for the tasks of a list, in order.\<close>

fun enqueue_all :: "os_task list \<Rightarrow> os_threadpool \<Rightarrow> os_threadpool" where
  "enqueue_all [] tp = tp"
| "enqueue_all (t # ts) tp = enqueue_all ts (snd (enqueue_locked tp t))"

text \<open>The workers inside the wait of line 103.\<close>

definition count_waiting :: "wstate list \<Rightarrow> nat" where
  "count_waiting ws = length (filter in_wait ws)"

text \<open>Where \<open>leave_dequeue\<close> puts the worker.\<close>

fun after_dequeue :: "os_task option outcome \<Rightarrow> wstate" where
  "after_dequeue Blocked = In_wait False"
| "after_dequeue (Returns None) = Returned"
| "after_dequeue (Returns (Some t)) = Has_task t"

text \<open>The counter counts the workers inside the wait, and there are \<^verbatim>\<open>num_threads\<close> workers.\<close>

definition counter_inv :: "sys \<Rightarrow> bool" where
  "counter_inv s =
     (waiting_threads (pool s) = of_nat (count_waiting (workers s)) \<and>
      length (workers s) = unat (num_threads (pool s)))"

text \<open>The states a schedule passes through, as far as its moves are enabled.\<close>

fun history :: "move list \<Rightarrow> sys \<Rightarrow> sys list" where
  "history [] s = [s]"
| "history (m # ms) s = s # (case step m s of None \<Rightarrow> [] | Some s' \<Rightarrow> history ms s')"

text \<open>The statics after the calls \<^verbatim>\<open>process_graph(a)\<close> for the arguments of a list, in order.\<close>

fun process_graphs ::
  "(addr \<Rightarrow> uint option) \<Rightarrow> addr list \<Rightarrow> globals \<Rightarrow> error + globals" where
  "process_graphs mem [] g = Inr g"
| "process_graphs mem (a # as) g =
     (case process_graph mem a g of
        Inl e \<Rightarrow> Inl e
      | Inr (g', ns) \<Rightarrow> process_graphs mem as g')"

text \<open>The nodes that are marked in \<open>g'\<close> and were not in \<open>g\<close>.\<close>

definition newly_visited :: "globals \<Rightarrow> globals \<Rightarrow> nat set" where
  "newly_visited g g' =
     {i. i < length (visited (graph g)) \<and> visited (graph g) ! i = NOT_VISITED \<and>
         visited (graph g') ! i \<noteq> NOT_VISITED}"

text \<open>
  Who holds a task: every task passed to \<^verbatim>\<open>enqueue_task\<close> is in the queue, or held by
  a worker, or freed, as many times in all as it was passed.
\<close>

definition owned_inv :: "sys \<Rightarrow> bool" where
  "owned_inv s =
     (\<forall>t. count_list (submitted s) t =
            count_list (head (pool s)) t + count_list (workers s) (Has_task t) +
            count_list (trace s) (Free_task t))"

text \<open>No task is passed twice: the blocks of the tasks are distinct and below \<open>brk\<close>.\<close>

definition fresh_inv :: "sys \<Rightarrow> bool" where
  "fresh_inv s = ((\<forall>t \<in> set (submitted s). task_at t < brk s) \<and> distinct (submitted s))"

text \<open>A destructor is called as often as its task is freed, a null one never.\<close>

definition dtor_inv :: "sys \<Rightarrow> bool" where
  "dtor_inv s =
     (\<forall>t. count_list (trace s) (Call_destroy_arg t) =
            (if destroy_arg t = None then 0 else count_list (trace s) (Free_task t)))"

text \<open>An action that has run is followed at once by the disposal of its task.\<close>

definition action_inv :: "sys \<Rightarrow> bool" where
  "action_inv s =
     (\<forall>t. Call_action t \<in> set (trace s) \<longrightarrow>
            (\<exists>pre post. trace s = pre @ Call_action t # destroy_task t @ post))"

text \<open>After the joins every worker is out of its loop; after the teardown the queue is empty.\<close>

definition joined_inv :: "sys \<Rightarrow> bool" where
  "joined_inv s =
     ((main_at s = M_joined \<or> main_at s = M_destroyed \<longrightarrow>
         list_all (\<lambda>w. w = Returned) (workers s)) \<and>
      (main_at s = M_destroyed \<longrightarrow> head (pool s) = []))"

text \<open>
  Two schedules of the program with its four workers. In \<open>seed_first\<close>, \<^verbatim>\<open>main\<close>
  submits node 0 before any worker runs; worker 0 then takes and runs every task, the
  other workers come to \<^verbatim>\<open>dequeue_task\<close> when nothing is left, and \<^verbatim>\<open>main\<close> waits,
  tears the pool down and prints. In \<open>workers_first\<close>, the four workers call
  \<^verbatim>\<open>dequeue_task\<close> before \<^verbatim>\<open>main\<close> reaches line 92: three block, the fourth sets
  \<^verbatim>\<open>stop_work\<close> and broadcasts, the three return from their waits, and only then does
  \<^verbatim>\<open>main\<close> submit node 0, wait, tear down and print. No wait returns spuriously in
  either.
\<close>

definition seed_first :: "pmove list" where
  "seed_first =
     P_main 0 # replicate 24 (P_worker 0 0) @
     [P_worker 1 0, P_worker 2 0, P_worker 3 0, P_worker 0 0, P_worker 1 0, P_worker 2 0,
      P_main 0, P_main 0, P_main 0]"

definition workers_first :: "pmove list" where
  "workers_first =
     [P_worker 0 0, P_worker 1 0, P_worker 2 0, P_worker 3 0,
      P_worker 0 0, P_worker 1 0, P_worker 2 0,
      P_main 0, P_main 0, P_main 0, P_main 0]"

section \<open>Properties of the pool's operations\<close>

subsection \<open>The operations as equations\<close>

lemma dequeue_task_resume_eq:
  "dequeue_task_resume tp =
     (if head tp = [] then
        (if stop_work tp then (Returns None, tp\<lparr>waiting_threads := waiting_threads tp - 1\<rparr>)
         else (Blocked, tp))
      else (Returns (Some (last (head tp))),
            tp\<lparr>head := butlast (head tp), waiting_threads := waiting_threads tp - 1\<rparr>))"
  by (simp add: dequeue_task_resume_def dequeue_must_wait_def dequeue_take_def
      queue_is_empty_def)

lemma dequeue_task_enter_eq:
  "dequeue_task_enter tp =
     dequeue_task_resume
       (tp\<lparr>stop_work := stop_work tp \<or> dequeue_is_last tp,
           waiting_threads := waiting_threads tp + 1\<rparr>)"
  by (simp add: dequeue_task_enter_def dequeue_announce_def dequeue_check_last_def)

lemma leave_dequeue_fields:
  "pool (leave_dequeue i ws r s) = snd r"
  "workers (leave_dequeue i ws r s) = ws[i := after_dequeue (fst r)]"
  "brk (leave_dequeue i ws r s) = brk s"
  "submitted (leave_dequeue i ws r s) = submitted s"
  "trace (leave_dequeue i ws r s) = trace s"
  "main_at (leave_dequeue i ws r s) =
     (if has_task (after_dequeue (fst r)) then signal_work_done (main_at s) else main_at s)"
  by (induction i ws r s rule: leave_dequeue.induct) simp_all

lemma pending_enqueue_locked: "pending (snd (enqueue_locked tp t)) = pending tp @ [t]"
  by (simp add: pending_def enqueue_locked_def list_add_def)

lemma enqueue_locked_frame:
  "waiting_threads (snd (enqueue_locked tp t)) = waiting_threads tp"
  "stop_work (snd (enqueue_locked tp t)) = stop_work tp"
  "num_threads (snd (enqueue_locked tp t)) = num_threads tp"
  by (simp_all add: enqueue_locked_def)

lemma pending_enqueue_all: "pending (enqueue_all ts tp) = pending tp @ ts"
  by (induction ts arbitrary: tp) (simp_all add: pending_enqueue_locked)

lemma enqueue_all_frame:
  "waiting_threads (enqueue_all ts tp) = waiting_threads tp \<and>
   stop_work (enqueue_all ts tp) = stop_work tp \<and>
   num_threads (enqueue_all ts tp) = num_threads tp"
  by (induction ts arbitrary: tp) (simp_all add: enqueue_locked_frame)

lemma dequeue_nonempty:
  assumes "pending tp = x # xs"
  shows "dequeue_task_enter tp =
           (Returns (Some x),
            tp\<lparr>stop_work := stop_work tp \<or> dequeue_is_last tp, head := rev xs\<rparr>)"
proof -
  from assms have h: "head tp = rev xs @ [x]"
    by (simp add: pending_def rev_swap)
  show ?thesis
    by (simp add: dequeue_task_enter_eq dequeue_task_resume_eq h)
qed

subsection \<open>Enqueue\<close>

text \<open>
  C8. \<^verbatim>\<open>enqueue_task\<close> on a pool and a task (both pointers non-null) has no failing
  branch: it returns, \<open>pending\<close> is the old \<open>pending\<close> with the task appended, one
  longer, and \<^verbatim>\<open>waiting_threads\<close>, \<^verbatim>\<open>stop_work\<close> and \<^verbatim>\<open>num_threads\<close> are as before.
\<close>

theorem enqueue_task_appends:
  "enqueue_task (Some tp) (Some t) = Inr (queue_is_empty tp, tp\<lparr>head := t # head tp\<rparr>) \<and>
   pending (tp\<lparr>head := t # head tp\<rparr>) = pending tp @ [t] \<and>
   length (pending (tp\<lparr>head := t # head tp\<rparr>)) = Suc (length (pending tp)) \<and>
   waiting_threads (tp\<lparr>head := t # head tp\<rparr>) = waiting_threads tp \<and>
   stop_work (tp\<lparr>head := t # head tp\<rparr>) = stop_work tp \<and>
   num_threads (tp\<lparr>head := t # head tp\<rparr>) = num_threads tp"
  by (simp add: enqueue_task_def enqueue_locked_def list_add_def pending_def)

subsection \<open>Dequeue from a queue that is not empty\<close>

text \<open>
  C4. Let tasks \<open>ts\<close> be enqueued, in order, on top of what is pending, and let \<open>x\<close> be
  the first of the pending tasks followed by \<open>ts\<close>, that is the one enqueued earliest.
  A call of \<^verbatim>\<open>dequeue_task\<close> then returns \<open>x\<close> without waiting, leaves the others
  pending in their order, and leaves \<^verbatim>\<open>waiting_threads\<close> as it was before the call.
\<close>

theorem dequeue_task_fifo:
  assumes "pending tp @ ts = x # xs"
  shows "fst (dequeue_task_enter (enqueue_all ts tp)) = Returns (Some x) \<and>
         pending (snd (dequeue_task_enter (enqueue_all ts tp))) = xs \<and>
         waiting_threads (snd (dequeue_task_enter (enqueue_all ts tp))) = waiting_threads tp"
proof -
  have "pending (enqueue_all ts tp) = x # xs"
    using assms by (simp add: pending_enqueue_all)
  then show ?thesis
    by (simp add: dequeue_nonempty pending_def enqueue_all_frame)
qed

theorem dequeue_task_fifo_witness:
  "pending (create_threadpool 2) @ [create_task 1 7 10 None, create_task 2 7 11 None] =
     create_task 1 7 10 None # [create_task 2 7 11 None] \<and>
   fst (dequeue_task_enter
          (enqueue_all [create_task 1 7 10 None, create_task 2 7 11 None]
             (create_threadpool 2))) = Returns (Some (create_task 1 7 10 None)) \<and>
   pending (snd (dequeue_task_enter
          (enqueue_all [create_task 1 7 10 None, create_task 2 7 11 None]
             (create_threadpool 2)))) = [create_task 2 7 11 None] \<and>
   waiting_threads (snd (dequeue_task_enter
          (enqueue_all [create_task 1 7 10 None, create_task 2 7 11 None]
             (create_threadpool 2)))) = 0"
proof -
  have h: "pending (create_threadpool 2) @ [create_task 1 7 10 None, create_task 2 7 11 None] =
     create_task 1 7 10 None # [create_task 2 7 11 None]"
    by (simp add: pending_def create_threadpool_def)
  from dequeue_task_fifo [OF h] h show ?thesis
    by (simp add: create_threadpool_def)
qed

subsection \<open>Destroying a task\<close>

text \<open>
  C10. For a task with a null \<^verbatim>\<open>destroy_arg\<close>, \<^verbatim>\<open>destroy_task\<close> does one thing: it frees
  the task's own block; nothing is called on the argument and the argument is not
  freed. In general the destructor is called if and only if it is not null, then once,
  and the task's block is freed once. \<^verbatim>\<open>process_node\<close> creates its tasks with a null
  destructor, so destroying one of them frees the task only.
\<close>

theorem destroy_task_null_destructor:
  "(destroy_arg t = None \<longrightarrow> destroy_task t = [Free_task t]) \<and>
   (Call_destroy_arg t \<in> set (destroy_task t)) = (destroy_arg t \<noteq> None) \<and>
   count_list (destroy_task t) (Call_destroy_arg t) = (if destroy_arg t = None then 0 else 1) \<and>
   count_list (destroy_task t) (Free_task t) = 1 \<and>
   set (destroy_task t) \<subseteq> {Call_destroy_arg t, Free_task t} \<and>
   destroy_task (create_task p process_graph_fn a None) =
     [Free_task (create_task p process_graph_fn a None)]"
  by (simp add: destroy_task_def create_task_def)

theorem destroy_task_null_destructor_witness:
  "destroy_arg (create_task 5 1 4 None) = None \<and>
   destroy_task (create_task 5 1 4 None) = [Free_task (create_task 5 1 4 None)] \<and>
   Call_destroy_arg (create_task 5 1 4 None) \<notin> set (destroy_task (create_task 5 1 4 None)) \<and>
   Call_destroy_arg (create_task 6 1 4 (Some 9)) \<in>
     set (destroy_task (create_task 6 1 4 (Some 9)))"
  using destroy_task_null_destructor [of "create_task 5 1 4 None" 0 0]
    destroy_task_null_destructor [of "create_task 6 1 4 (Some 9)" 0 0]
  by (simp add: create_task_def)

section \<open>Invariants of the running pool\<close>

subsection \<open>Counting the waiting workers\<close>

lemma count_update:
  "i < length ws \<Longrightarrow>
   length (filter P (ws[i := x])) + (if P (ws ! i) then 1 else 0) =
   length (filter P ws) + (if P x then 1 else 0)"
proof (induction ws arbitrary: i)
  case Nil
  then show ?case by simp
next
  case (Cons w ws)
  then show ?case by (cases i) auto
qed

lemma count_waiting_update:
  "i < length ws \<Longrightarrow>
   count_waiting (ws[i := x]) + (if in_wait (ws ! i) then 1 else 0) =
   count_waiting ws + (if in_wait x then 1 else 0)"
  unfolding count_waiting_def by (rule count_update)

lemma count_waiting_broadcast: "count_waiting (cond_broadcast ws) = count_waiting ws"
  by (induction ws) (auto simp: count_waiting_def cond_broadcast_def)

lemma length_broadcast: "length (cond_broadcast ws) = length ws"
  by (simp add: cond_broadcast_def)

lemma nth_broadcast:
  "i < length ws \<Longrightarrow> cond_broadcast ws ! i = (if in_wait (ws ! i) then In_wait True else ws ! i)"
  by (simp add: cond_broadcast_def)

lemma cond_signal_cases:
  assumes "cond_signal k ws = Some ws'"
  shows "ws' = ws \<or> (k < length ws \<and> ws ! k = In_wait False \<and> ws' = ws[k := In_wait True])"
  using assms by (auto simp: cond_signal_def split: if_splits)

lemma cond_signal_Some:
  assumes "cond_signal k ws = Some ws'"
  shows "length ws' = length ws \<and> count_waiting ws' = count_waiting ws"
  using cond_signal_cases [OF assms] count_waiting_update [of k ws "In_wait True"]
  by auto

lemma counter_inv_enter:
  assumes inv: "waiting_threads tp = of_nat (count_waiting ws)" and i: "i < length ws"
    and at: "\<not> in_wait (ws ! i)"
  shows "waiting_threads (snd (dequeue_task_enter tp)) =
         of_nat (count_waiting (ws[i := after_dequeue (fst (dequeue_task_enter tp))]))"
proof -
  have upd: "\<And>x. count_waiting (ws[i := x]) = count_waiting ws + (if in_wait x then 1 else 0)"
    using count_waiting_update [OF i] at by simp
  show ?thesis
    by (simp add: dequeue_task_enter_eq dequeue_task_resume_eq upd inv)
qed

lemma counter_inv_resume:
  assumes inv: "waiting_threads tp = of_nat (count_waiting ws)" and i: "i < length ws"
    and at: "in_wait (ws ! i)"
  shows "waiting_threads (snd (dequeue_task_resume tp)) =
         of_nat (count_waiting (ws[i := after_dequeue (fst (dequeue_task_resume tp))]))"
proof -
  have upd: "\<And>x. count_waiting (ws[i := x]) + 1 = count_waiting ws + (if in_wait x then 1 else 0)"
    using count_waiting_update [OF i] at by simp
  have blocked: "count_waiting (ws[i := In_wait False]) = count_waiting ws"
    using upd [of "In_wait False"] by simp
  have gone: "\<And>x. \<not> in_wait x \<Longrightarrow>
      (of_nat (count_waiting ws) :: uint) - 1 = of_nat (count_waiting (ws[i := x]))"
  proof -
    fix x assume "\<not> in_wait x"
    then have "count_waiting ws = Suc (count_waiting (ws[i := x]))"
      using upd [of x] by simp
    then show "(of_nat (count_waiting ws) :: uint) - 1 = of_nat (count_waiting (ws[i := x]))"
      by simp
  qed
  show ?thesis
    by (simp add: dequeue_task_resume_eq blocked gone inv)
qed

lemma num_threads_resume: "num_threads (snd (dequeue_task_resume tp)) = num_threads tp"
  by (simp add: dequeue_task_resume_eq)

lemma num_threads_enter: "num_threads (snd (dequeue_task_enter tp)) = num_threads tp"
  by (simp add: dequeue_task_enter_eq dequeue_task_resume_eq)

subsection \<open>The moves, one by one\<close>

declare step.simps [simp del]

text \<open>What each move needs and gives, without the guards.\<close>

lemma step_EnqueueE:
  assumes "step (Enqueue th f a d k) s = Some s'"
  obtains ws where "may_enqueue th s"
    and "(if queue_is_empty (pool s) then cond_signal k (workers s) else Some (workers s)) = Some ws"
    and "s' = s\<lparr>pool := (pool s)\<lparr>head := create_task (brk s) f a d # head (pool s)\<rparr>,
                  workers := ws, brk := Suc (brk s),
                  submitted := submitted s @ [create_task (brk s) f a d]\<rparr>"
  using assms
  by (auto simp: step.simps enqueue_task_def enqueue_locked_def list_add_def Let_def
      split: if_splits option.splits)

lemma step_DequeueE:
  assumes "step (Dequeue i) s = Some s'"
  obtains "i < length (workers s)" and "workers s ! i = At_loop"
    and "s' = leave_dequeue i
               (if dequeue_is_last (pool s) then cond_broadcast (workers s) else workers s)
               (dequeue_task_enter (pool s)) s"
  using assms by (auto simp: step.simps split: if_splits)

lemma step_WakeE:
  assumes "step (Wake i) s = Some s'"
  obtains "i < length (workers s)" and "in_wait (workers s ! i)"
    and "s' = leave_dequeue i (workers s) (dequeue_task_resume (pool s)) s"
  using assms by (auto simp: step.simps split: if_splits)

lemma step_SpuriousE:
  assumes "step (Spurious i) s = Some s'"
  obtains "i < length (workers s)" and "in_wait (workers s ! i)"
    and "s' = leave_dequeue i (workers s) (dequeue_task_resume (pool s)) s"
  using assms by (auto simp: step.simps split: if_splits)

lemma step_FinishE:
  assumes "step (Finish i) s = Some s'"
  obtains t where "i < length (workers s)" and "workers s ! i = Has_task t"
    and "s' = s\<lparr>workers := (workers s)[i := At_loop],
                  trace := trace s @ Call_action t # destroy_task t\<rparr>"
  using assms by (auto simp: step.simps split: if_splits wstate.splits)

lemma step_WaitE:
  assumes "step Wait s = Some s'"
  obtains "main_at s = M_running" and "s' = wait_for_completion_loop s"
  using assms by (auto simp: step.simps split: if_splits)

lemma step_Main_wakeE:
  assumes "step Main_wake s = Some s'"
  obtains "main_at s = M_wait True" and "s' = wait_for_completion_loop s"
  using assms by (auto simp: step.simps split: if_splits)

lemma step_Main_spuriousE:
  assumes "step Main_spurious s = Some s'"
  obtains "main_at s = M_wait False" and "s' = wait_for_completion_loop s"
  using assms by (auto simp: step.simps split: if_splits)

lemma step_JoinE:
  assumes "step Join s = Some s'"
  obtains "main_at s = M_join" and "list_all (\<lambda>w. w = Returned) (workers s)"
    and "s' = s\<lparr>main_at := M_joined\<rparr>"
  using assms by (auto simp: step.simps split: if_splits)

lemma step_DestroyE:
  assumes "step Destroy s = Some s'"
  obtains "main_at s = M_joined"
    and "s' = s\<lparr>pool := (pool s)\<lparr>head := []\<rparr>,
                  trace := trace s @ concat (map destroy_task (head (pool s))),
                  main_at := M_destroyed\<rparr>"
  using assms by (auto simp: step.simps destroy_threadpool_def split: if_splits)

lemma counter_inv_step:
  assumes st: "step m s = Some s'" and inv: "counter_inv s"
  shows "counter_inv s'"
proof (cases m)
  case (Enqueue th f a d k)
  with st obtain ws where
    "(if queue_is_empty (pool s) then cond_signal k (workers s) else Some (workers s)) = Some ws"
      and s': "s' = s\<lparr>pool := (pool s)\<lparr>head := create_task (brk s) f a d # head (pool s)\<rparr>,
                  workers := ws, brk := Suc (brk s),
                  submitted := submitted s @ [create_task (brk s) f a d]\<rparr>"
    by (auto elim: step_EnqueueE)
  then have "length ws = length (workers s) \<and> count_waiting ws = count_waiting (workers s)"
    by (auto dest: cond_signal_Some split: if_splits)
  with inv show ?thesis by (simp add: counter_inv_def s')
next
  case (Dequeue i)
  with st have i: "i < length (workers s)" and at: "workers s ! i = At_loop"
    and s': "s' = leave_dequeue i
               (if dequeue_is_last (pool s) then cond_broadcast (workers s) else workers s)
               (dequeue_task_enter (pool s)) s"
    by (auto elim: step_DequeueE)
  let ?ws = "if dequeue_is_last (pool s) then cond_broadcast (workers s) else workers s"
  have "waiting_threads (pool s) = of_nat (count_waiting ?ws)"
    using inv by (simp add: counter_inv_def count_waiting_broadcast)
  moreover have "i < length ?ws" using i by (simp add: length_broadcast)
  moreover have "\<not> in_wait (?ws ! i)" using i at by (simp add: nth_broadcast)
  ultimately have "waiting_threads (snd (dequeue_task_enter (pool s))) =
      of_nat (count_waiting (?ws[i := after_dequeue (fst (dequeue_task_enter (pool s)))]))"
    by (rule counter_inv_enter)
  moreover have "length ?ws = unat (num_threads (pool s))"
    using inv by (simp add: counter_inv_def length_broadcast)
  ultimately show ?thesis
    unfolding counter_inv_def s' leave_dequeue_fields num_threads_enter by simp
next
  case (Wake i)
  with st have i: "i < length (workers s)" and at: "in_wait (workers s ! i)"
    and s': "s' = leave_dequeue i (workers s) (dequeue_task_resume (pool s)) s"
    by (auto elim: step_WakeE)
  have "waiting_threads (pool s) = of_nat (count_waiting (workers s))"
    using inv by (simp add: counter_inv_def)
  from counter_inv_resume [OF this i at] inv show ?thesis
    unfolding counter_inv_def s' leave_dequeue_fields num_threads_resume by simp
next
  case (Spurious i)
  with st have i: "i < length (workers s)" and at: "in_wait (workers s ! i)"
    and s': "s' = leave_dequeue i (workers s) (dequeue_task_resume (pool s)) s"
    by (auto elim: step_SpuriousE)
  have "waiting_threads (pool s) = of_nat (count_waiting (workers s))"
    using inv by (simp add: counter_inv_def)
  from counter_inv_resume [OF this i at] inv show ?thesis
    unfolding counter_inv_def s' leave_dequeue_fields num_threads_resume by simp
next
  case (Finish i)
  with st obtain t where i: "i < length (workers s)" and at: "workers s ! i = Has_task t"
    and s': "s' = s\<lparr>workers := (workers s)[i := At_loop],
                     trace := trace s @ Call_action t # destroy_task t\<rparr>"
    by (auto elim: step_FinishE)
  from count_waiting_update [OF i, of At_loop] at
  have "count_waiting ((workers s)[i := At_loop]) = count_waiting (workers s)" by simp
  with inv show ?thesis by (simp add: counter_inv_def s')
next
  case Wait
  with st inv show ?thesis by (auto simp: counter_inv_def wait_for_completion_loop_def elim!: step_WaitE)
next
  case Main_wake
  with st inv show ?thesis by (auto simp: counter_inv_def wait_for_completion_loop_def elim!: step_Main_wakeE)
next
  case Main_spurious
  with st inv show ?thesis by (auto simp: counter_inv_def wait_for_completion_loop_def elim!: step_Main_spuriousE)
next
  case Join
  with st inv show ?thesis by (auto simp: counter_inv_def elim!: step_JoinE)
next
  case Destroy
  with st inv show ?thesis by (auto simp: counter_inv_def elim!: step_DestroyE)
qed

lemma run_invariant:
  assumes step: "\<And>m s s'. step m s = Some s' \<Longrightarrow> P s \<Longrightarrow> P s'"
  shows "run ms s = Some s' \<Longrightarrow> P s \<Longrightarrow> P s'"
proof (induction ms arbitrary: s)
  case Nil
  then show ?case by simp
next
  case (Cons m ms)
  then show ?case by (auto split: option.splits intro: step)
qed

lemma counter_inv_start: "counter_inv (start n b)"
  by (simp add: counter_inv_def start_def create_threadpool_def count_waiting_def)

lemma num_threads_step:
  assumes st: "step m s = Some s'"
  shows "num_threads (pool s') = num_threads (pool s)"
proof (cases m)
  case (Enqueue th f a d k)
  with st show ?thesis by (auto elim!: step_EnqueueE)
next
  case (Dequeue i)
  with st show ?thesis
    by (auto elim!: step_DequeueE simp: leave_dequeue_fields num_threads_enter)
next
  case (Wake i)
  with st show ?thesis
    by (auto elim!: step_WakeE simp: leave_dequeue_fields num_threads_resume)
next
  case (Spurious i)
  with st show ?thesis
    by (auto elim!: step_SpuriousE simp: leave_dequeue_fields num_threads_resume)
next
  case (Finish i)
  with st show ?thesis by (auto elim!: step_FinishE)
next
  case Wait
  with st show ?thesis by (auto simp: wait_for_completion_loop_def elim!: step_WaitE)
next
  case Main_wake
  with st show ?thesis by (auto simp: wait_for_completion_loop_def elim!: step_Main_wakeE)
next
  case Main_spurious
  with st show ?thesis by (auto simp: wait_for_completion_loop_def elim!: step_Main_spuriousE)
next
  case Join
  with st show ?thesis by (auto elim!: step_JoinE)
next
  case Destroy
  with st show ?thesis by (auto elim!: step_DestroyE)
qed

lemma num_threads_run: "run ms s = Some s' \<Longrightarrow> num_threads (pool s') = num_threads (pool s)"
proof (induction ms arbitrary: s)
  case Nil
  then show ?case by simp
next
  case (Cons m ms)
  then show ?case by (auto split: option.splits dest: num_threads_step)
qed

subsection \<open>The idle counter stays within the pool size\<close>

lemma count_waiting_less:
  "w \<in> set ws \<Longrightarrow> \<not> in_wait w \<Longrightarrow> count_waiting ws < length ws"
  unfolding count_waiting_def by (rule length_filter_less)

lemma count_waiting_pos:
  "w \<in> set ws \<Longrightarrow> in_wait w \<Longrightarrow> 0 < count_waiting ws"
  unfolding count_waiting_def by (simp add: filter_empty_conv) blast

text \<open>
  C7. In every state the pool reaches from \<^verbatim>\<open>create_threadpool(n)\<close>, under any schedule
  (spurious wake-ups included), \<^verbatim>\<open>waiting_threads\<close> is at least 0 and at most
  \<^verbatim>\<open>num_threads\<close>: it is the number of workers inside the wait of \<^verbatim>\<open>dequeue_task\<close>.
  \<^verbatim>\<open>num_threads\<close> is still the \<open>n\<close> of the construction. The bounds hold inside a
  call as well: when a worker is about to call \<^verbatim>\<open>dequeue_task\<close>, the counter after the
  increment of line 97 is one more and still at most \<open>n\<close>, and when a worker is in the
  wait the counter is positive, so the decrement of line 118 does not wrap.
\<close>

theorem waiting_threads_bounded:
  assumes "run ms (start n b) = Some s"
  shows "0 \<le> uint (waiting_threads (pool s)) \<and>
         unat (waiting_threads (pool s)) \<le> unat (num_threads (pool s)) \<and>
         unat (waiting_threads (pool s)) = count_waiting (workers s) \<and>
         num_threads (pool s) = n \<and>
         (At_loop \<in> set (workers s) \<longrightarrow>
            unat (waiting_threads (dequeue_announce (dequeue_check_last (pool s)))) =
              Suc (count_waiting (workers s)) \<and>
            Suc (count_waiting (workers s)) \<le> unat n) \<and>
         (In_wait True \<in> set (workers s) \<or> In_wait False \<in> set (workers s) \<longrightarrow>
            0 < unat (waiting_threads (pool s)))"
proof -
  have inv: "counter_inv s"
    using counter_inv_step assms counter_inv_start by (rule run_invariant)
  have n: "num_threads (pool s) = n"
    using num_threads_run [OF assms] by (simp add: start_def create_threadpool_def)
  have "count_waiting (workers s) \<le> length (workers s)"
    by (simp add: count_waiting_def)
  then have le: "count_waiting (workers s) \<le> unat (num_threads (pool s))"
    using inv by (simp add: counter_inv_def)
  have eq: "unat (waiting_threads (pool s)) = count_waiting (workers s)"
    using inv le_unat_uoi [OF le] by (simp add: counter_inv_def)
  have up: "unat (waiting_threads (dequeue_announce (dequeue_check_last (pool s)))) =
              Suc (count_waiting (workers s)) \<and>
            Suc (count_waiting (workers s)) \<le> unat n"
    if "At_loop \<in> set (workers s)"
  proof -
    from that have "count_waiting (workers s) < length (workers s)"
      by (rule count_waiting_less) simp
    then have le': "Suc (count_waiting (workers s)) \<le> unat (num_threads (pool s))"
      using inv by (simp add: counter_inv_def)
    have "waiting_threads (dequeue_announce (dequeue_check_last (pool s))) =
        of_nat (Suc (count_waiting (workers s)))"
      using inv by (simp add: counter_inv_def dequeue_announce_def dequeue_check_last_def)
    with le_unat_uoi [OF le'] le' n show ?thesis by simp
  qed
  have down: "0 < unat (waiting_threads (pool s))"
    if "In_wait True \<in> set (workers s) \<or> In_wait False \<in> set (workers s)"
    using that eq count_waiting_pos [of "In_wait True" "workers s"]
      count_waiting_pos [of "In_wait False" "workers s"] by auto
  from le eq n up down show ?thesis by simp
qed

theorem waiting_threads_bounded_witness:
  "run [Dequeue 0, Enqueue Main 7 100 None 0] (start 2 0) \<noteq> None \<and>
   unat (waiting_threads (pool (the (run [Dequeue 0, Enqueue Main 7 100 None 0] (start 2 0))))) = 1 \<and>
   unat (num_threads (pool (the (run [Dequeue 0, Enqueue Main 7 100 None 0] (start 2 0))))) = 2 \<and>
   At_loop \<in> set (workers (the (run [Dequeue 0, Enqueue Main 7 100 None 0] (start 2 0)))) \<and>
   In_wait True \<in> set (workers (the (run [Dequeue 0, Enqueue Main 7 100 None 0] (start 2 0)))) \<and>
   unat (waiting_threads (dequeue_announce (dequeue_check_last
     (pool (the (run [Dequeue 0, Enqueue Main 7 100 None 0] (start 2 0))))))) = 2"
proof -
  have r: "run [Dequeue 0, Enqueue Main 7 100 None 0] (start 2 0) =
    Some \<lparr>pool = \<lparr>num_threads = 2,
                 head = [\<lparr>task_at = 0, action = 7, argument = 100, destroy_arg = None\<rparr>],
                 waiting_threads = 1, stop_work = False\<rparr>,
          workers = [In_wait True, At_loop], main_at = M_running, brk = 1,
          submitted = [\<lparr>task_at = 0, action = 7, argument = 100, destroy_arg = None\<rparr>],
          trace = []\<rparr>"
    by code_simp
  from waiting_threads_bounded [OF r] r show ?thesis
    by (simp add: count_waiting_def)
qed

subsection \<open>The shutdown flag\<close>

lemma stop_work_resume: "stop_work (snd (dequeue_task_resume tp)) = stop_work tp"
  by (simp add: dequeue_task_resume_eq)

lemma stop_work_enter:
  "stop_work (snd (dequeue_task_enter tp)) = (stop_work tp \<or> dequeue_is_last tp)"
  by (simp add: dequeue_task_enter_eq dequeue_task_resume_eq)

lemma stop_work_step:
  assumes st: "step m s = Some s'" and on: "stop_work (pool s)"
  shows "stop_work (pool s')"
proof (cases m)
  case (Enqueue th f a d k)
  with st on show ?thesis by (auto elim!: step_EnqueueE)
next
  case (Dequeue i)
  with st on show ?thesis
    by (auto elim!: step_DequeueE simp: leave_dequeue_fields stop_work_enter)
next
  case (Wake i)
  with st on show ?thesis
    by (auto elim!: step_WakeE simp: leave_dequeue_fields stop_work_resume)
next
  case (Spurious i)
  with st on show ?thesis
    by (auto elim!: step_SpuriousE simp: leave_dequeue_fields stop_work_resume)
next
  case (Finish i)
  with st on show ?thesis by (auto elim!: step_FinishE)
next
  case Wait
  with st on show ?thesis by (auto simp: wait_for_completion_loop_def elim!: step_WaitE)
next
  case Main_wake
  with st on show ?thesis by (auto simp: wait_for_completion_loop_def elim!: step_Main_wakeE)
next
  case Main_spurious
  with st on show ?thesis by (auto simp: wait_for_completion_loop_def elim!: step_Main_spuriousE)
next
  case Join
  with st on show ?thesis by (auto elim!: step_JoinE)
next
  case Destroy
  with st on show ?thesis by (auto elim!: step_DestroyE)
qed

lemma stop_work_run: "run ms s = Some s' \<Longrightarrow> stop_work (pool s) \<Longrightarrow> stop_work (pool s')"
  using stop_work_step by (rule run_invariant)

lemma history_stopped:
  "stop_work (pool s) \<Longrightarrow>
   map (\<lambda>x. stop_work (pool x)) (history ms s) = replicate (length (history ms s)) True"
proof (induction ms arbitrary: s)
  case Nil
  then show ?case by simp
next
  case (Cons m ms)
  then show ?case by (auto split: option.splits dest: stop_work_step)
qed

lemma history_flag:
  "\<exists>k \<le> length (history ms s).
     map (\<lambda>x. stop_work (pool x)) (history ms s) =
       replicate k False @ replicate (length (history ms s) - k) True"
proof (induction ms arbitrary: s)
  case Nil
  show ?case
  proof (cases "stop_work (pool s)")
    case True
    then show ?thesis by (intro exI [of _ 0]) simp
  next
    case False
    then show ?thesis by (intro exI [of _ 1]) simp
  qed
next
  case (Cons m ms)
  show ?case
  proof (cases "stop_work (pool s)")
    case True
    from history_stopped [OF this, of "m # ms"] show ?thesis
      by (intro exI [of _ 0]) simp
  next
    case False
    show ?thesis
    proof (cases "step m s")
      case None
      with False show ?thesis by (intro exI [of _ 1]) simp
    next
      case (Some s')
      from Cons.IH [of s'] obtain k where k: "k \<le> length (history ms s')"
        and "map (\<lambda>x. stop_work (pool x)) (history ms s') =
          replicate k False @ replicate (length (history ms s') - k) True"
        by blast
      with False Some show ?thesis by (intro exI [of _ "Suc k"]) simp
    qed
  qed
qed

text \<open>
  C6. \<^verbatim>\<open>stop_work\<close> is false when \<^verbatim>\<open>create_threadpool\<close> returns. Once it is true it is
  true after every operation (enqueue, both halves of dequeue) and after every schedule
  of the pool, the moves of \<^verbatim>\<open>wait_for_completion\<close> included. Along any schedule the
  flag reads false for some states and true for all later ones: it goes from false to
  true at most once and never back.
\<close>

theorem stop_work_monotone:
  "\<not> stop_work (create_threadpool n) \<and> \<not> stop_work (pool (start n b)) \<and>
   (stop_work tp \<longrightarrow>
      stop_work (snd (enqueue_locked tp t)) \<and> stop_work (snd (dequeue_task_enter tp)) \<and>
      stop_work (snd (dequeue_task_resume tp))) \<and>
   (run ms s = Some s' \<and> stop_work (pool s) \<longrightarrow> stop_work (pool s')) \<and>
   (\<exists>k \<le> length (history ms s).
      map (\<lambda>x. stop_work (pool x)) (history ms s) =
        replicate k False @ replicate (length (history ms s) - k) True)"
  using history_flag [of ms s] stop_work_run [of ms s s']
  by (simp add: create_threadpool_def start_def enqueue_locked_def stop_work_enter
      stop_work_resume)

theorem stop_work_monotone_witness:
  "stop_work \<lparr>num_threads = 2, head = [], waiting_threads = 1, stop_work = True\<rparr> \<and>
   stop_work (snd (dequeue_task_enter
     \<lparr>num_threads = 2, head = [], waiting_threads = 1, stop_work = True\<rparr>)) \<and>
   run [Wake 0]
     \<lparr>pool = \<lparr>num_threads = 2, head = [], waiting_threads = 1, stop_work = True\<rparr>,
      workers = [In_wait True, Returned], main_at = M_running, brk = 0,
      submitted = [], trace = []\<rparr> =
   Some \<lparr>pool = \<lparr>num_threads = 2, head = [], waiting_threads = 0, stop_work = True\<rparr>,
      workers = [Returned, Returned], main_at = M_running, brk = 0,
      submitted = [], trace = []\<rparr> \<and>
   stop_work (pool
     \<lparr>pool = \<lparr>num_threads = 2, head = [], waiting_threads = 0, stop_work = True\<rparr>,
      workers = [Returned, Returned], main_at = M_running, brk = 0,
      submitted = [], trace = []\<rparr>)"
proof -
  have r: "run [Wake 0]
     \<lparr>pool = \<lparr>num_threads = 2, head = [], waiting_threads = 1, stop_work = True\<rparr>,
      workers = [In_wait True, Returned], main_at = M_running, brk = 0,
      submitted = [], trace = []\<rparr> =
   Some \<lparr>pool = \<lparr>num_threads = 2, head = [], waiting_threads = 0, stop_work = True\<rparr>,
      workers = [Returned, Returned], main_at = M_running, brk = 0,
      submitted = [], trace = []\<rparr>"
    by code_simp
  from stop_work_monotone [of 2 0
      "\<lparr>num_threads = 2, head = [], waiting_threads = 1, stop_work = True\<rparr>"
      "create_task 0 0 0 None" "[Wake 0]"
      "\<lparr>pool = \<lparr>num_threads = 2, head = [], waiting_threads = 1, stop_work = True\<rparr>,
        workers = [In_wait True, Returned], main_at = M_running, brk = 0,
        submitted = [], trace = []\<rparr>"
      "\<lparr>pool = \<lparr>num_threads = 2, head = [], waiting_threads = 0, stop_work = True\<rparr>,
        workers = [Returned, Returned], main_at = M_running, brk = 0,
        submitted = [], trace = []\<rparr>"] r
  show ?thesis by simp
qed

subsection \<open>When \<^verbatim>\<open>dequeue_task\<close> declares the work done\<close>

lemma last_test_after_increment:
  "(w = n - 1) = (w + 1 = n)" for w n :: uint
  by (auto simp: algebra_simps)

lemma broadcast_leaves_none_blocked: "In_wait False \<notin> set (cond_broadcast ws)"
  by (auto simp: cond_broadcast_def)

lemma dequeue_task_enter_empty:
  assumes "queue_is_empty tp"
  shows "dequeue_task_enter tp =
     (if stop_work tp \<or> dequeue_is_last tp
      then (Returns None, tp\<lparr>stop_work := True\<rparr>)
      else (Blocked, tp\<lparr>waiting_threads := waiting_threads tp + 1\<rparr>))"
  using assms
  by (simp add: dequeue_task_enter_eq dequeue_task_resume_eq queue_is_empty_def)

text \<open>
  C1, as the code has it. Take a call of \<^verbatim>\<open>dequeue_task\<close> that finds nothing pending.
  \<^item> \<^verbatim>\<open>stop_work\<close> is set exactly when the counter after the caller's increment equals
    \<^verbatim>\<open>num_threads\<close>, and nothing is pending at that instant either; otherwise the flag
    is as it was.
  \<^item> The all-idle test is not made after the increment, though: line 92 tests the counter
    before the increment of line 97, against \<^verbatim>\<open>num_threads - 1\<close>, which is the same
    condition, and the flag has its final value before the counter moves.
  \<^item> \<^verbatim>\<open>cond_queue\<close> is broadcast exactly when the test holds: then every waiting worker
    is unblocked and none is left blocked, and when the test fails every other worker
    is as it was.
  \<^item> The test, the increment and the emptiness test of the wait loop are made on the
    state in which the caller took the mutex at line 86, in one move: the state after
    the move is the state before it with the pool that the three statements compute
    from its pool and with the caller blocked at line 103 or out of its loop, and
    nothing that another thread does lies between them.
\<close>

theorem dequeue_task_stop_rule:
  assumes "step (Dequeue i) s = Some s'" and "queue_is_empty (pool s)"
  shows "stop_work (pool s') =
           (stop_work (pool s) \<or>
            waiting_threads (dequeue_announce (dequeue_check_last (pool s))) =
              num_threads (pool s)) \<and>
         queue_is_empty (dequeue_announce (dequeue_check_last (pool s))) \<and>
         queue_is_empty (pool s') \<and>
         (waiting_threads (dequeue_announce (dequeue_check_last (pool s))) =
            num_threads (pool s)) =
           (waiting_threads (pool s) = num_threads (pool s) - 1) \<and>
         waiting_threads (dequeue_check_last (pool s)) = waiting_threads (pool s) \<and>
         stop_work (dequeue_check_last (pool s)) = stop_work (pool s') \<and>
         workers s' =
           (if waiting_threads (pool s) = num_threads (pool s) - 1
            then cond_broadcast (workers s) else workers s)
           [i := (if stop_work (pool s') then Returned else In_wait False)] \<and>
         In_wait False \<notin> set (cond_broadcast (workers s)) \<and>
         s' = s\<lparr>pool := snd (dequeue_task_resume
                              (dequeue_announce (dequeue_check_last (pool s)))),
                 workers := workers s'\<rparr> \<and>
         waiting_threads (pool s') =
           (if stop_work (pool s') then waiting_threads (pool s)
            else waiting_threads (pool s) + 1)"
proof -
  from assms(1) have s': "s' = leave_dequeue i
               (if dequeue_is_last (pool s) then cond_broadcast (workers s) else workers s)
               (dequeue_task_enter (pool s)) s"
    by (auto elim: step_DequeueE)
  note enter = dequeue_task_enter_empty [OF assms(2)]
  have last: "dequeue_is_last (pool s) =
      (waiting_threads (pool s) = num_threads (pool s) - 1)"
    by (simp add: dequeue_is_last_def)
  have inc: "(waiting_threads (dequeue_announce (dequeue_check_last (pool s))) =
            num_threads (pool s)) =
           (waiting_threads (pool s) = num_threads (pool s) - 1)"
    using last_test_after_increment [of "waiting_threads (pool s)" "num_threads (pool s)"]
    by (simp add: dequeue_announce_def dequeue_check_last_def)
  have chk: "waiting_threads (dequeue_check_last (pool s)) = waiting_threads (pool s)"
    "stop_work (dequeue_check_last (pool s)) = (stop_work (pool s) \<or> dequeue_is_last (pool s))"
    "queue_is_empty (dequeue_announce (dequeue_check_last (pool s)))"
    using assms(2)
    by (simp_all add: dequeue_check_last_def dequeue_announce_def queue_is_empty_def)
  have hd: "head (dequeue_announce (dequeue_check_last (pool s))) = []"
    using assms(2)
    by (simp add: dequeue_check_last_def dequeue_announce_def queue_is_empty_def)
  have comp: "snd (dequeue_task_resume (dequeue_announce (dequeue_check_last (pool s)))) =
      snd (dequeue_task_enter (pool s))"
    by (simp add: dequeue_task_enter_def)
  show ?thesis
  proof (cases "stop_work (pool s) \<or> dequeue_is_last (pool s)")
    case True
    then have e: "dequeue_task_enter (pool s) = (Returns None, (pool s)\<lparr>stop_work := True\<rparr>)"
      by (simp add: enter)
    show ?thesis
      using True assms(2) broadcast_leaves_none_blocked [of "workers s"]
      unfolding inc chk comp
      by (simp add: s' e last hd queue_is_empty_def)
  next
    case False
    then have e: "dequeue_task_enter (pool s) =
        (Blocked, (pool s)\<lparr>waiting_threads := waiting_threads (pool s) + 1\<rparr>)"
      by (simp add: enter)
    show ?thesis
      using False assms(2) broadcast_leaves_none_blocked [of "workers s"]
      unfolding inc chk comp
      by (simp add: s' e last hd queue_is_empty_def)
  qed
qed

theorem dequeue_task_stop_rule_witness:
  "queue_is_empty \<lparr>num_threads = 2, head = [], waiting_threads = 1, stop_work = False\<rparr> \<and>
   step (Dequeue 1)
     \<lparr>pool = \<lparr>num_threads = 2, head = [], waiting_threads = 1, stop_work = False\<rparr>,
      workers = [In_wait False, At_loop], main_at = M_running, brk = 0,
      submitted = [], trace = []\<rparr> =
   Some \<lparr>pool = \<lparr>num_threads = 2, head = [], waiting_threads = 1, stop_work = True\<rparr>,
      workers = [In_wait True, Returned], main_at = M_running, brk = 0,
      submitted = [], trace = []\<rparr> \<and>
   waiting_threads (dequeue_announce (dequeue_check_last
     \<lparr>num_threads = 2, head = [], waiting_threads = 1, stop_work = False\<rparr>)) = 2 \<and>
   queue_is_empty \<lparr>num_threads = 3, head = [], waiting_threads = 1, stop_work = False\<rparr> \<and>
   step (Dequeue 1)
     \<lparr>pool = \<lparr>num_threads = 3, head = [], waiting_threads = 1, stop_work = False\<rparr>,
      workers = [In_wait False, At_loop, At_loop], main_at = M_running, brk = 0,
      submitted = [], trace = []\<rparr> =
   Some \<lparr>pool = \<lparr>num_threads = 3, head = [], waiting_threads = 2, stop_work = False\<rparr>,
      workers = [In_wait False, In_wait False, At_loop], main_at = M_running, brk = 0,
      submitted = [], trace = []\<rparr> \<and>
   waiting_threads (dequeue_announce (dequeue_check_last
     \<lparr>num_threads = 3, head = [], waiting_threads = 1, stop_work = False\<rparr>)) \<noteq> 3"
proof -
  have e1: "queue_is_empty (pool
     \<lparr>pool = \<lparr>num_threads = 2, head = [], waiting_threads = 1, stop_work = False\<rparr>,
      workers = [In_wait False, At_loop], main_at = M_running, brk = 0,
      submitted = [], trace = []\<rparr>)"
    by (simp add: queue_is_empty_def)
  have r1: "step (Dequeue 1)
     \<lparr>pool = \<lparr>num_threads = 2, head = [], waiting_threads = 1, stop_work = False\<rparr>,
      workers = [In_wait False, At_loop], main_at = M_running, brk = 0,
      submitted = [], trace = []\<rparr> =
   Some \<lparr>pool = \<lparr>num_threads = 2, head = [], waiting_threads = 1, stop_work = True\<rparr>,
      workers = [In_wait True, Returned], main_at = M_running, brk = 0,
      submitted = [], trace = []\<rparr>"
    by code_simp
  have e2: "queue_is_empty (pool
     \<lparr>pool = \<lparr>num_threads = 3, head = [], waiting_threads = 1, stop_work = False\<rparr>,
      workers = [In_wait False, At_loop, At_loop], main_at = M_running, brk = 0,
      submitted = [], trace = []\<rparr>)"
    by (simp add: queue_is_empty_def)
  have r2: "step (Dequeue 1)
     \<lparr>pool = \<lparr>num_threads = 3, head = [], waiting_threads = 1, stop_work = False\<rparr>,
      workers = [In_wait False, At_loop, At_loop], main_at = M_running, brk = 0,
      submitted = [], trace = []\<rparr> =
   Some \<lparr>pool = \<lparr>num_threads = 3, head = [], waiting_threads = 2, stop_work = False\<rparr>,
      workers = [In_wait False, In_wait False, At_loop], main_at = M_running, brk = 0,
      submitted = [], trace = []\<rparr>"
    by code_simp
  from dequeue_task_stop_rule [OF r1 e1] dequeue_task_stop_rule [OF r2 e2] r1 r2 e1 e2
  show ?thesis by simp
qed

text \<open>
  C1 as the spec states it does not hold: the increment does not come before the
  all-idle test. With three of four workers waiting and nothing pending, the fourth
  worker's call sets the flag at line 93 while the counter is still 3, not 4; the
  counter becomes 4 only at line 97, after the flag is set.
\<close>

theorem dequeue_task_tests_before_increment:
  "queue_is_empty \<lparr>num_threads = 4, head = [], waiting_threads = 3, stop_work = False\<rparr> \<and>
   stop_work (dequeue_check_last
     \<lparr>num_threads = 4, head = [], waiting_threads = 3, stop_work = False\<rparr>) \<and>
   waiting_threads (dequeue_check_last
     \<lparr>num_threads = 4, head = [], waiting_threads = 3, stop_work = False\<rparr>) = 3 \<and>
   waiting_threads (dequeue_check_last
     \<lparr>num_threads = 4, head = [], waiting_threads = 3, stop_work = False\<rparr>) \<noteq>
   num_threads \<lparr>num_threads = 4, head = [], waiting_threads = 3, stop_work = False\<rparr> \<and>
   waiting_threads (dequeue_announce (dequeue_check_last
     \<lparr>num_threads = 4, head = [], waiting_threads = 3, stop_work = False\<rparr>)) = 4"
  by (simp add: queue_is_empty_def dequeue_check_last_def dequeue_is_last_def
      dequeue_announce_def)

subsection \<open>Who holds a task\<close>

lemma count_list_update:
  "i < length xs \<Longrightarrow>
   count_list (xs[i := y]) a + (if xs ! i = a then 1 else 0) =
   count_list xs a + (if y = a then 1 else 0)"
  using count_update [of i xs "\<lambda>x. a = x" y]
  by (auto simp: count_list_eq_length_filter)

lemma count_list_flag:
  "i < length ws \<Longrightarrow> \<not> has_task (ws ! i) \<Longrightarrow>
   count_list (ws[i := In_wait b]) (Has_task t) = count_list ws (Has_task t)"
  using count_list_update [of i ws "In_wait b" "Has_task t"] by (cases "ws ! i") auto

lemma count_list_broadcast:
  "count_list (cond_broadcast ws) (Has_task t) = count_list ws (Has_task t)"
proof (induction ws)
  case Nil
  then show ?case by (simp add: cond_broadcast_def)
next
  case (Cons w ws)
  then show ?case by (cases w) (simp_all add: cond_broadcast_def)
qed

lemma count_list_signal:
  assumes "cond_signal k ws = Some ws'"
  shows "count_list ws' (Has_task t) = count_list ws (Has_task t)"
  using cond_signal_cases [OF assms] count_list_flag [of k ws True t] by auto

lemma count_list_butlast:
  "h \<noteq> [] \<Longrightarrow> count_list (butlast h) a + (if last h = a then 1 else 0) = count_list h a"
proof -
  assume "h \<noteq> []"
  then have "h = butlast h @ [last h]" by simp
  then have "count_list h a = count_list (butlast h @ [last h]) a" by simp
  then show ?thesis by simp
qed

lemma count_list_destroy_task:
  "count_list (destroy_task t) (Free_task u) = (if t = u then 1 else 0)"
  "count_list (destroy_task t) (Call_destroy_arg u) =
     (if t = u \<and> destroy_arg u \<noteq> None then 1 else 0)"
  "Call_action u \<notin> set (destroy_task t)"
  by (auto simp: destroy_task_def)

lemma count_list_destroy_all:
  "count_list (concat (map destroy_task h)) (Free_task u) = count_list h u"
  "count_list (concat (map destroy_task h)) (Call_destroy_arg u) =
     (if destroy_arg u = None then 0 else count_list h u)"
  "Call_action u \<notin> set (concat (map destroy_task h))"
  by (induction h) (auto simp: count_list_destroy_task)

text \<open>What \<^verbatim>\<open>dequeue_task\<close> takes from the queue is what the worker then holds.\<close>

lemma resume_balance:
  "count_list (head (snd (dequeue_task_resume tp))) t +
     (if after_dequeue (fst (dequeue_task_resume tp)) = Has_task t then 1 else 0) =
   count_list (head tp) t"
  using count_list_butlast [of "head tp" t]
  by (auto simp: dequeue_task_resume_eq)

lemma enter_balance:
  "count_list (head (snd (dequeue_task_enter tp))) t +
     (if after_dequeue (fst (dequeue_task_enter tp)) = Has_task t then 1 else 0) =
   count_list (head tp) t"
  using resume_balance [of "tp\<lparr>stop_work := stop_work tp \<or> dequeue_is_last tp,
           waiting_threads := waiting_threads tp + 1\<rparr>" t]
  by (simp add: dequeue_task_enter_eq)

lemma owned_inv_leave:
  assumes inv: "owned_inv s" and i: "i < length ws" and free: "\<not> has_task (ws ! i)"
    and ws: "\<And>t. count_list ws (Has_task t) = count_list (workers s) (Has_task t)"
    and bal: "\<And>t. count_list (head (snd r)) t +
        (if after_dequeue (fst r) = Has_task t then 1 else 0) = count_list (head (pool s)) t"
  shows "owned_inv (leave_dequeue i ws r s)"
proof -
  have "count_list (ws[i := after_dequeue (fst r)]) (Has_task t) =
        count_list ws (Has_task t) + (if after_dequeue (fst r) = Has_task t then 1 else 0)" for t
    using count_list_update [OF i, of "after_dequeue (fst r)" "Has_task t"] free
    by (cases "ws ! i") auto
  with inv ws bal [symmetric] show ?thesis
    by (simp add: owned_inv_def leave_dequeue_fields)
qed

lemma owned_inv_step:
  assumes st: "step m s = Some s'" and inv: "owned_inv s"
  shows "owned_inv s'"
proof (cases m)
  case (Enqueue th f a d k)
  with st obtain ws where
    "(if queue_is_empty (pool s) then cond_signal k (workers s) else Some (workers s)) = Some ws"
      and s': "s' = s\<lparr>pool := (pool s)\<lparr>head := create_task (brk s) f a d # head (pool s)\<rparr>,
                  workers := ws, brk := Suc (brk s),
                  submitted := submitted s @ [create_task (brk s) f a d]\<rparr>"
    by (auto elim: step_EnqueueE)
  then have "count_list ws (Has_task t) = count_list (workers s) (Has_task t)" for t
    by (auto dest: count_list_signal split: if_splits)
  with inv show ?thesis by (simp add: owned_inv_def s')
next
  case (Dequeue i)
  with st have i: "i < length (workers s)" and at: "workers s ! i = At_loop"
    and s': "s' = leave_dequeue i
               (if dequeue_is_last (pool s) then cond_broadcast (workers s) else workers s)
               (dequeue_task_enter (pool s)) s"
    by (auto elim: step_DequeueE)
  show ?thesis
    unfolding s' using inv
  proof (rule owned_inv_leave)
    show "i < length (if dequeue_is_last (pool s) then cond_broadcast (workers s) else workers s)"
      using i by (simp add: length_broadcast)
    show "\<not> has_task ((if dequeue_is_last (pool s) then cond_broadcast (workers s)
                       else workers s) ! i)"
      using i at by (simp add: nth_broadcast)
  qed (simp_all add: count_list_broadcast enter_balance)
next
  case (Wake i)
  with st have i: "i < length (workers s)" and at: "in_wait (workers s ! i)"
    and s': "s' = leave_dequeue i (workers s) (dequeue_task_resume (pool s)) s"
    by (auto elim: step_WakeE)
  from at have "\<not> has_task (workers s ! i)" by (cases "workers s ! i") auto
  with inv i show ?thesis
    unfolding s' by (rule owned_inv_leave) (simp_all add: resume_balance)
next
  case (Spurious i)
  with st have i: "i < length (workers s)" and at: "in_wait (workers s ! i)"
    and s': "s' = leave_dequeue i (workers s) (dequeue_task_resume (pool s)) s"
    by (auto elim: step_SpuriousE)
  from at have "\<not> has_task (workers s ! i)" by (cases "workers s ! i") auto
  with inv i show ?thesis
    unfolding s' by (rule owned_inv_leave) (simp_all add: resume_balance)
next
  case (Finish i)
  with st obtain t where i: "i < length (workers s)" and at: "workers s ! i = Has_task t"
    and s': "s' = s\<lparr>workers := (workers s)[i := At_loop],
                     trace := trace s @ Call_action t # destroy_task t\<rparr>"
    by (auto elim: step_FinishE)
  have "count_list ((workers s)[i := At_loop]) (Has_task u) + (if t = u then 1 else 0) =
        count_list (workers s) (Has_task u)" for u
    using count_list_update [OF i, of At_loop "Has_task u"] at by simp
  with inv show ?thesis
    by (simp add: owned_inv_def s' count_list_destroy_task)
next
  case Wait
  with st inv show ?thesis by (auto simp: owned_inv_def wait_for_completion_loop_def elim!: step_WaitE)
next
  case Main_wake
  with st inv show ?thesis by (auto simp: owned_inv_def wait_for_completion_loop_def elim!: step_Main_wakeE)
next
  case Main_spurious
  with st inv show ?thesis
    by (auto simp: owned_inv_def wait_for_completion_loop_def elim!: step_Main_spuriousE)
next
  case Join
  with st inv show ?thesis by (auto simp: owned_inv_def elim!: step_JoinE)
next
  case Destroy
  with st have s': "s' = s\<lparr>pool := (pool s)\<lparr>head := []\<rparr>,
                  trace := trace s @ concat (map destroy_task (head (pool s))),
                  main_at := M_destroyed\<rparr>"
    by (auto elim: step_DestroyE)
  from inv show ?thesis by (simp add: owned_inv_def s' count_list_destroy_all)
qed

text \<open>Only \<^verbatim>\<open>enqueue_task\<close> adds to the submitted tasks, and only disposal adds to the trace.\<close>

lemma step_trace:
  assumes st: "step m s = Some s'"
  shows "(\<exists>i t. m = Finish i \<and> trace s' = trace s @ Call_action t # destroy_task t) \<or>
         (m = Destroy \<and> trace s' = trace s @ concat (map destroy_task (head (pool s)))) \<or>
         trace s' = trace s"
proof (cases m)
  case (Enqueue th f a d k)
  with st show ?thesis by (auto elim!: step_EnqueueE)
next
  case (Dequeue i)
  with st show ?thesis by (auto elim!: step_DequeueE simp: leave_dequeue_fields)
next
  case (Wake i)
  with st show ?thesis by (auto elim!: step_WakeE simp: leave_dequeue_fields)
next
  case (Spurious i)
  with st show ?thesis by (auto elim!: step_SpuriousE simp: leave_dequeue_fields)
next
  case (Finish i)
  with st show ?thesis by (auto elim!: step_FinishE)
next
  case Wait
  with st show ?thesis by (auto simp: wait_for_completion_loop_def elim!: step_WaitE)
next
  case Main_wake
  with st show ?thesis by (auto simp: wait_for_completion_loop_def elim!: step_Main_wakeE)
next
  case Main_spurious
  with st show ?thesis by (auto simp: wait_for_completion_loop_def elim!: step_Main_spuriousE)
next
  case Join
  with st show ?thesis by (auto elim!: step_JoinE)
next
  case Destroy
  with st show ?thesis by (auto elim!: step_DestroyE)
qed

lemma step_submitted:
  assumes st: "step m s = Some s'"
  shows "(\<exists>t. task_at t = brk s \<and> submitted s' = submitted s @ [t] \<and> brk s' = Suc (brk s)) \<or>
         (submitted s' = submitted s \<and> brk s' = brk s)"
proof (cases m)
  case (Enqueue th f a d k)
  with st show ?thesis by (auto elim!: step_EnqueueE simp: create_task_def)
next
  case (Dequeue i)
  with st show ?thesis by (auto elim!: step_DequeueE simp: leave_dequeue_fields)
next
  case (Wake i)
  with st show ?thesis by (auto elim!: step_WakeE simp: leave_dequeue_fields)
next
  case (Spurious i)
  with st show ?thesis by (auto elim!: step_SpuriousE simp: leave_dequeue_fields)
next
  case (Finish i)
  with st show ?thesis by (auto elim!: step_FinishE)
next
  case Wait
  with st show ?thesis by (auto simp: wait_for_completion_loop_def elim!: step_WaitE)
next
  case Main_wake
  with st show ?thesis by (auto simp: wait_for_completion_loop_def elim!: step_Main_wakeE)
next
  case Main_spurious
  with st show ?thesis by (auto simp: wait_for_completion_loop_def elim!: step_Main_spuriousE)
next
  case Join
  with st show ?thesis by (auto elim!: step_JoinE)
next
  case Destroy
  with st show ?thesis by (auto elim!: step_DestroyE)
qed

lemma fresh_inv_step:
  assumes st: "step m s = Some s'" and inv: "fresh_inv s"
  shows "fresh_inv s'"
  using step_submitted [OF st] inv
  by (fastforce simp: fresh_inv_def)

lemma dtor_inv_step:
  assumes st: "step m s = Some s'" and inv: "dtor_inv s"
  shows "dtor_inv s'"
  using step_trace [OF st] inv
  by (auto simp: dtor_inv_def count_list_destroy_task count_list_destroy_all)

lemma action_inv_step:
  assumes st: "step m s = Some s'" and inv: "action_inv s"
  shows "action_inv s'"
  unfolding action_inv_def
proof (intro allI impI)
  fix u assume u: "Call_action u \<in> set (trace s')"
  from step_trace [OF st] obtain ext where ext: "trace s' = trace s @ ext"
    and new: "Call_action u \<in> set ext \<longrightarrow> ext = Call_action u # destroy_task u"
    by (auto simp: count_list_destroy_task count_list_destroy_all)
  show "\<exists>pre post. trace s' = pre @ Call_action u # destroy_task u @ post"
  proof (cases "Call_action u \<in> set (trace s)")
    case True
    with inv obtain pre post where "trace s = pre @ Call_action u # destroy_task u @ post"
      by (auto simp: action_inv_def)
    then have "trace s' = pre @ Call_action u # destroy_task u @ (post @ ext)"
      by (simp add: ext)
    then show ?thesis by blast
  next
    case False
    with u ext new have "trace s' = trace s @ Call_action u # destroy_task u @ []" by auto
    then show ?thesis by blast
  qed
qed

lemma returned_no_move:
  "list_all (\<lambda>w. w = Returned) ws \<Longrightarrow> i < length ws \<Longrightarrow> ws ! i = Returned"
  by (simp add: list_all_length)

lemma joined_inv_step:
  assumes st: "step m s = Some s'" and inv: "joined_inv s"
  shows "joined_inv s'"
proof (cases m)
  case (Enqueue th f a d k)
  with st obtain ws where may: "may_enqueue th s"
    and s': "s' = s\<lparr>pool := (pool s)\<lparr>head := create_task (brk s) f a d # head (pool s)\<rparr>,
                  workers := ws, brk := Suc (brk s),
                  submitted := submitted s @ [create_task (brk s) f a d]\<rparr>"
    by (auto elim: step_EnqueueE)
  have "main_at s \<noteq> M_joined \<and> main_at s \<noteq> M_destroyed"
  proof (cases th)
    case Main
    with may show ?thesis by auto
  next
    case (Worker i)
    with may have "i < length (workers s)" and "has_task (workers s ! i)" by auto
    with inv returned_no_move [of "workers s" i] show ?thesis
      by (auto simp: joined_inv_def)
  qed
  then show ?thesis by (simp add: joined_inv_def s')
next
  case (Dequeue i)
  with st have i: "i < length (workers s)" and at: "workers s ! i = At_loop"
    and s': "s' = leave_dequeue i
               (if dequeue_is_last (pool s) then cond_broadcast (workers s) else workers s)
               (dequeue_task_enter (pool s)) s"
    by (auto elim: step_DequeueE)
  from i at inv returned_no_move [of "workers s" i]
  have "main_at s \<noteq> M_joined \<and> main_at s \<noteq> M_destroyed"
    by (auto simp: joined_inv_def)
  then show ?thesis
    by (auto simp: joined_inv_def s' leave_dequeue_fields signal_work_done_def)
next
  case (Wake i)
  with st have i: "i < length (workers s)" and at: "in_wait (workers s ! i)"
    and s': "s' = leave_dequeue i (workers s) (dequeue_task_resume (pool s)) s"
    by (auto elim: step_WakeE)
  from i at inv returned_no_move [of "workers s" i]
  have "main_at s \<noteq> M_joined \<and> main_at s \<noteq> M_destroyed"
    by (auto simp: joined_inv_def)
  then show ?thesis
    by (auto simp: joined_inv_def s' leave_dequeue_fields signal_work_done_def)
next
  case (Spurious i)
  with st have i: "i < length (workers s)" and at: "in_wait (workers s ! i)"
    and s': "s' = leave_dequeue i (workers s) (dequeue_task_resume (pool s)) s"
    by (auto elim: step_SpuriousE)
  from i at inv returned_no_move [of "workers s" i]
  have "main_at s \<noteq> M_joined \<and> main_at s \<noteq> M_destroyed"
    by (auto simp: joined_inv_def)
  then show ?thesis
    by (auto simp: joined_inv_def s' leave_dequeue_fields signal_work_done_def)
next
  case (Finish i)
  with st obtain t where i: "i < length (workers s)" and at: "workers s ! i = Has_task t"
    and s': "s' = s\<lparr>workers := (workers s)[i := At_loop],
                     trace := trace s @ Call_action t # destroy_task t\<rparr>"
    by (auto elim: step_FinishE)
  from i at inv returned_no_move [of "workers s" i]
  have "main_at s \<noteq> M_joined \<and> main_at s \<noteq> M_destroyed"
    by (auto simp: joined_inv_def)
  then show ?thesis by (simp add: joined_inv_def s')
next
  case Wait
  with st show ?thesis
    by (auto simp: joined_inv_def wait_for_completion_loop_def split: if_splits elim!: step_WaitE)
next
  case Main_wake
  with st show ?thesis
    by (auto simp: joined_inv_def wait_for_completion_loop_def split: if_splits elim!: step_Main_wakeE)
next
  case Main_spurious
  with st show ?thesis
    by (auto simp: joined_inv_def wait_for_completion_loop_def split: if_splits elim!: step_Main_spuriousE)
next
  case Join
  with st show ?thesis by (auto simp: joined_inv_def elim!: step_JoinE)
next
  case Destroy
  with st inv show ?thesis by (auto simp: joined_inv_def elim!: step_DestroyE)
qed

lemma disposal_invs_start:
  "owned_inv (start n b)" "fresh_inv (start n b)" "dtor_inv (start n b)"
  "action_inv (start n b)" "joined_inv (start n b)"
  by (simp_all add: owned_inv_def fresh_inv_def dtor_inv_def action_inv_def joined_inv_def
      start_def create_threadpool_def)

lemma disposal_invs_run:
  assumes "run ms (start n b) = Some s"
  shows "owned_inv s" "fresh_inv s" "dtor_inv s" "action_inv s" "joined_inv s"
proof -
  show "owned_inv s"
    using owned_inv_step assms disposal_invs_start(1) by (rule run_invariant)
  show "fresh_inv s"
    using fresh_inv_step assms disposal_invs_start(2) by (rule run_invariant)
  show "dtor_inv s"
    using dtor_inv_step assms disposal_invs_start(3) by (rule run_invariant)
  show "action_inv s"
    using action_inv_step assms disposal_invs_start(4) by (rule run_invariant)
  show "joined_inv s"
    using joined_inv_step assms disposal_invs_start(5) by (rule run_invariant)
qed

lemma count_list_distinct:
  "distinct xs \<Longrightarrow> count_list xs x = (if x \<in> set xs then 1 else 0)"
  by (induction xs) auto

lemma all_returned_holds_none:
  "list_all (\<lambda>w. w = Returned) ws \<Longrightarrow> Has_task t \<notin> set ws"
  by (auto simp: list_all_iff)

text \<open>
  C5. Take any schedule of the pool from \<^verbatim>\<open>create_threadpool\<close> on, and any task \<open>t\<close>
  passed to \<^verbatim>\<open>enqueue_task\<close> along it. Its block is freed at most once. Its destructor
  has been called once if \<open>t\<close> has one and is neither in the queue nor held by a
  worker, and not at all otherwise; so never twice. When \<^verbatim>\<open>destroy_threadpool\<close> has
  returned, the destructor of a task that has one has been called exactly once, whether
  the task ran or was still in the queue. If the action of \<open>t\<close> ran, the disposal of
  \<open>t\<close> follows it at once in the trace.
\<close>

theorem destructor_exactly_once:
  assumes "run ms (start n b) = Some s" and "t \<in> set (submitted s)"
  shows "count_list (trace s) (Free_task t) \<le> 1 \<and>
         count_list (trace s) (Call_destroy_arg t) =
           (if destroy_arg t = None \<or> t \<in> set (head (pool s)) \<or> Has_task t \<in> set (workers s)
            then 0 else 1) \<and>
         (main_at s = M_destroyed \<and> destroy_arg t \<noteq> None \<longrightarrow>
            count_list (trace s) (Call_destroy_arg t) = 1) \<and>
         (Call_action t \<in> set (trace s) \<longrightarrow>
            (\<exists>pre post. trace s = pre @ Call_action t # destroy_task t @ post))"
proof -
  note invs = disposal_invs_run [OF assms(1)]
  from invs(2) assms(2) have "count_list (submitted s) t = 1"
    by (simp add: fresh_inv_def count_list_distinct)
  with invs(1) have own: "count_list (head (pool s)) t + count_list (workers s) (Has_task t) +
      count_list (trace s) (Free_task t) = 1"
    by (simp add: owned_inv_def)
  then have le: "count_list (trace s) (Free_task t) \<le> 1" by simp
  have freed: "count_list (trace s) (Free_task t) =
      (if t \<in> set (head (pool s)) \<or> Has_task t \<in> set (workers s) then 0 else 1)"
  proof (cases "t \<in> set (head (pool s)) \<or> Has_task t \<in> set (workers s)")
    case True
    then have "count_list (head (pool s)) t \<noteq> 0 \<or> count_list (workers s) (Has_task t) \<noteq> 0"
      by (simp add: count_list_0_iff)
    then have "0 < count_list (head (pool s)) t + count_list (workers s) (Has_task t)"
      by auto
    with own have "count_list (trace s) (Free_task t) = 0" by linarith
    with True show ?thesis by simp
  next
    case False
    with own show ?thesis by (simp add: count_list_0_iff)
  qed
  have calls: "count_list (trace s) (Call_destroy_arg t) =
           (if destroy_arg t = None \<or> t \<in> set (head (pool s)) \<or> Has_task t \<in> set (workers s)
            then 0 else 1)"
    using invs(3) freed by (simp add: dtor_inv_def)
  have final: "count_list (trace s) (Call_destroy_arg t) = 1"
    if "main_at s = M_destroyed" and "destroy_arg t \<noteq> None"
    using that invs(5) calls all_returned_holds_none [of "workers s" t]
    by (auto simp: joined_inv_def)
  from le calls final invs(4) show ?thesis
    by (simp add: action_inv_def)
qed

theorem destructor_exactly_once_witness:
  "run [Enqueue Main 7 100 (Some 9) 0, Dequeue 0, Finish 0, Dequeue 0,
        Enqueue Main 7 101 (Some 9) 0, Wait, Join, Destroy] (start 1 0) \<noteq> None \<and>
   main_at (the (run [Enqueue Main 7 100 (Some 9) 0, Dequeue 0, Finish 0, Dequeue 0,
        Enqueue Main 7 101 (Some 9) 0, Wait, Join, Destroy] (start 1 0))) = M_destroyed \<and>
   create_task 0 7 100 (Some 9) \<in>
     set (submitted (the (run [Enqueue Main 7 100 (Some 9) 0, Dequeue 0, Finish 0, Dequeue 0,
        Enqueue Main 7 101 (Some 9) 0, Wait, Join, Destroy] (start 1 0)))) \<and>
   create_task 1 7 101 (Some 9) \<in>
     set (submitted (the (run [Enqueue Main 7 100 (Some 9) 0, Dequeue 0, Finish 0, Dequeue 0,
        Enqueue Main 7 101 (Some 9) 0, Wait, Join, Destroy] (start 1 0)))) \<and>
   count_list (trace (the (run [Enqueue Main 7 100 (Some 9) 0, Dequeue 0, Finish 0, Dequeue 0,
        Enqueue Main 7 101 (Some 9) 0, Wait, Join, Destroy] (start 1 0))))
     (Call_destroy_arg (create_task 0 7 100 (Some 9))) = 1 \<and>
   count_list (trace (the (run [Enqueue Main 7 100 (Some 9) 0, Dequeue 0, Finish 0, Dequeue 0,
        Enqueue Main 7 101 (Some 9) 0, Wait, Join, Destroy] (start 1 0))))
     (Call_destroy_arg (create_task 1 7 101 (Some 9))) = 1 \<and>
   Call_action (create_task 0 7 100 (Some 9)) \<in>
     set (trace (the (run [Enqueue Main 7 100 (Some 9) 0, Dequeue 0, Finish 0, Dequeue 0,
        Enqueue Main 7 101 (Some 9) 0, Wait, Join, Destroy] (start 1 0)))) \<and>
   Call_action (create_task 1 7 101 (Some 9)) \<notin>
     set (trace (the (run [Enqueue Main 7 100 (Some 9) 0, Dequeue 0, Finish 0, Dequeue 0,
        Enqueue Main 7 101 (Some 9) 0, Wait, Join, Destroy] (start 1 0))))"
proof -
  have r: "run [Enqueue Main 7 100 (Some 9) 0, Dequeue 0, Finish 0, Dequeue 0,
        Enqueue Main 7 101 (Some 9) 0, Wait, Join, Destroy] (start 1 0) =
    Some \<lparr>pool = \<lparr>num_threads = 1, head = [], waiting_threads = 0, stop_work = True\<rparr>,
          workers = [Returned], main_at = M_destroyed, brk = 2,
          submitted = [create_task 0 7 100 (Some 9), create_task 1 7 101 (Some 9)],
          trace = [Call_action (create_task 0 7 100 (Some 9)),
                   Call_destroy_arg (create_task 0 7 100 (Some 9)),
                   Free_task (create_task 0 7 100 (Some 9)),
                   Call_destroy_arg (create_task 1 7 101 (Some 9)),
                   Free_task (create_task 1 7 101 (Some 9))]\<rparr>"
    by code_simp
  from destructor_exactly_once [OF r, of "create_task 0 7 100 (Some 9)"]
    destructor_exactly_once [OF r, of "create_task 1 7 101 (Some 9)"] r
  show ?thesis by (simp add: create_task_def)
qed

section \<open>Properties of the traversal\<close>

lemma process_graph_visited:
  assumes "mem arg = Some idx" and "unat idx < length (visited (graph g))"
    and "unat idx < length (nodes (graph g))"
    and "visited (graph g) ! unat idx \<noteq> NOT_VISITED"
  shows "process_graph mem arg g = Inr (g, [])"
  using assms by (simp add: process_graph_def)

lemma process_graph_marks:
  assumes "process_graph mem arg g = Inr (g', ns)"
  obtains idx where "mem arg = Some idx" and "unat idx < length (visited (graph g))"
    and "unat idx < length (nodes (graph g))"
    and "visited (graph g') ! unat idx \<noteq> NOT_VISITED"
    and "length (visited (graph g')) = length (visited (graph g))"
    and "nodes (graph g') = nodes (graph g)"
  using assms
  by (auto simp: process_graph_def split: option.splits if_splits)

text \<open>One call adds the value of at most one node, and only of a node it marks.\<close>

lemma process_graph_sum:
  assumes "process_graph mem arg g = Inr (g', ns)"
  shows "sum_g g' = sum_g g + (\<Sum>i \<in> newly_visited g g'. info (nodes (graph g) ! i)) \<and>
         length (visited (graph g')) = length (visited (graph g)) \<and>
         nodes (graph g') = nodes (graph g) \<and>
         (\<forall>i. visited (graph g) ! i \<noteq> NOT_VISITED \<longrightarrow> visited (graph g') ! i \<noteq> NOT_VISITED)"
proof -
  from assms obtain idx where idx: "mem arg = Some idx"
    and lv: "unat idx < length (visited (graph g))"
    and ln: "unat idx < length (nodes (graph g))"
    by (auto elim: process_graph_marks)
  show ?thesis
  proof (cases "visited (graph g) ! unat idx = NOT_VISITED")
    case False
    with assms idx lv ln have "g' = g" by (simp add: process_graph_def)
    then show ?thesis by (simp add: newly_visited_def)
  next
    case True
    with assms idx lv ln have g': "g' = g\<lparr>graph := (graph g)\<lparr>visited := (visited (graph g))[unat idx := DONE]\<rparr>,
                    sum_g := sum_g g + info (nodes (graph g) ! unat idx)\<rparr>"
      by (auto simp: process_graph_def)
    have "newly_visited g g' = {unat idx}"
      using True lv by (auto simp: newly_visited_def g' nth_list_update)
    moreover have "visited (graph g') ! i \<noteq> NOT_VISITED"
      if "visited (graph g) ! i \<noteq> NOT_VISITED" for i
      using that lv by (cases "i = unat idx") (simp_all add: g')
    ultimately show ?thesis by (simp add: g')
  qed
qed

lemma newly_visited_trans:
  assumes len: "length (visited (graph g1)) = length (visited (graph g))"
    and mono1: "\<forall>i. visited (graph g) ! i \<noteq> NOT_VISITED \<longrightarrow> visited (graph g1) ! i \<noteq> NOT_VISITED"
    and mono2: "\<forall>i. visited (graph g1) ! i \<noteq> NOT_VISITED \<longrightarrow> visited (graph g2) ! i \<noteq> NOT_VISITED"
  shows "newly_visited g g2 = newly_visited g g1 \<union> newly_visited g1 g2"
    and "newly_visited g g1 \<inter> newly_visited g1 g2 = {}"
  using assms by (auto simp: newly_visited_def)

lemma finite_newly_visited: "finite (newly_visited g g')"
  by (simp add: newly_visited_def)

lemma process_graphs_sum:
  "process_graphs mem as g = Inr g' \<Longrightarrow>
   sum_g g' = sum_g g + (\<Sum>i \<in> newly_visited g g'. info (nodes (graph g) ! i)) \<and>
   length (visited (graph g')) = length (visited (graph g)) \<and>
   nodes (graph g') = nodes (graph g) \<and>
   (\<forall>i. visited (graph g) ! i \<noteq> NOT_VISITED \<longrightarrow> visited (graph g') ! i \<noteq> NOT_VISITED)"
proof (induction as arbitrary: g)
  case Nil
  then show ?case by (simp add: newly_visited_def)
next
  case (Cons a as)
  from Cons.prems obtain g1 ns where one: "process_graph mem a g = Inr (g1, ns)"
    and rest: "process_graphs mem as g1 = Inr g'"
    by (auto split: sum.splits)
  note h1 = process_graph_sum [OF one]
  note h2 = Cons.IH [OF rest]
  have u: "newly_visited g g' = newly_visited g g1 \<union> newly_visited g1 g'"
    and d: "newly_visited g g1 \<inter> newly_visited g1 g' = {}"
    using newly_visited_trans [of g1 g g'] h1 h2 by blast+
  have "(\<Sum>i \<in> newly_visited g g'. info (nodes (graph g) ! i)) =
        (\<Sum>i \<in> newly_visited g g1. info (nodes (graph g) ! i)) +
        (\<Sum>i \<in> newly_visited g1 g'. info (nodes (graph g) ! i))"
    unfolding u by (rule sum.union_disjoint [OF finite_newly_visited finite_newly_visited d])
  with h1 h2 show ?case by (simp add: add.assoc)
qed

text \<open>
  C9. If the mark of node \<open>idx\<close> is set, \<^verbatim>\<open>process_graph\<close> on \<open>idx\<close> returns at once:
  the sum and the graph, the whole \<^verbatim>\<open>visited\<close> array with it, are as before, and it
  passes no node to \<^verbatim>\<open>process_node\<close>. After any call that returns, the mark is set, so
  a second call on the same argument changes nothing. Over any sequence of calls the sum
  grows by the value of each node that the sequence marks, counted once.
\<close>

theorem process_graph_idempotent:
  "(mem arg = Some idx \<and> unat idx < length (visited (graph g)) \<and>
    unat idx < length (nodes (graph g)) \<and> visited (graph g) ! unat idx \<noteq> NOT_VISITED
      \<longrightarrow> process_graph mem arg g = Inr (g, [])) \<and>
   (process_graph mem arg g = Inr (g', ns) \<longrightarrow> process_graph mem arg g' = Inr (g', [])) \<and>
   (process_graphs mem as g = Inr g'' \<longrightarrow>
      sum_g g'' = sum_g g + (\<Sum>i \<in> newly_visited g g''. info (nodes (graph g) ! i)))"
proof -
  have "process_graph mem arg g' = Inr (g', [])" if "process_graph mem arg g = Inr (g', ns)"
    using that by (elim process_graph_marks) (simp add: process_graph_visited)
  then show ?thesis
    using process_graph_visited [of mem arg idx g] process_graphs_sum [of mem as g g'']
    by blast
qed

theorem process_graph_idempotent_witness:
  "process_graph [10 \<mapsto> 2] 10 \<lparr>sum_g = 0, graph = five_nodes\<rparr> =
     Inr (\<lparr>sum_g = 3, graph = five_nodes\<lparr>visited := (visited five_nodes)[2 := DONE]\<rparr>\<rparr>, [0, 3]) \<and>
   process_graph [10 \<mapsto> 2] 10
       \<lparr>sum_g = 3, graph = five_nodes\<lparr>visited := (visited five_nodes)[2 := DONE]\<rparr>\<rparr> =
     Inr (\<lparr>sum_g = 3, graph = five_nodes\<lparr>visited := (visited five_nodes)[2 := DONE]\<rparr>\<rparr>, []) \<and>
   process_graphs [10 \<mapsto> 2] [10, 10, 10] \<lparr>sum_g = 0, graph = five_nodes\<rparr> =
     Inr \<lparr>sum_g = 3, graph = five_nodes\<lparr>visited := (visited five_nodes)[2 := DONE]\<rparr>\<rparr> \<and>
   (\<Sum>i \<in> newly_visited \<lparr>sum_g = 0, graph = five_nodes\<rparr>
        \<lparr>sum_g = 3, graph = five_nodes\<lparr>visited := (visited five_nodes)[2 := DONE]\<rparr>\<rparr>.
      info (nodes five_nodes ! i)) = 3"
proof -
  have one: "process_graph [10 \<mapsto> 2] 10 \<lparr>sum_g = 0, graph = five_nodes\<rparr> =
     Inr (\<lparr>sum_g = 3, graph = five_nodes\<lparr>visited := (visited five_nodes)[2 := DONE]\<rparr>\<rparr>, [0, 3])"
    by (simp add: process_graph_def five_nodes_def)
  have all: "process_graphs [10 \<mapsto> 2] [10, 10, 10] \<lparr>sum_g = 0, graph = five_nodes\<rparr> =
     Inr \<lparr>sum_g = 3, graph = five_nodes\<lparr>visited := (visited five_nodes)[2 := DONE]\<rparr>\<rparr>"
    by (simp add: process_graph_def five_nodes_def)
  have marked: "visited (graph \<lparr>sum_g = 3,
      graph = five_nodes\<lparr>visited := (visited five_nodes)[2 := DONE]\<rparr>\<rparr>) ! unat (2 :: uint) \<noteq>
      NOT_VISITED"
    by (simp add: five_nodes_def)
  from process_graph_idempotent [of "[10 \<mapsto> 2]" 10 2
      "\<lparr>sum_g = 3, graph = five_nodes\<lparr>visited := (visited five_nodes)[2 := DONE]\<rparr>\<rparr>"
      "\<lparr>sum_g = 3, graph = five_nodes\<lparr>visited := (visited five_nodes)[2 := DONE]\<rparr>\<rparr>"
      "[]" "[]"
      "\<lparr>sum_g = 3, graph = five_nodes\<lparr>visited := (visited five_nodes)[2 := DONE]\<rparr>\<rparr>"]
    marked
  have again: "process_graph [10 \<mapsto> 2] 10
       \<lparr>sum_g = 3, graph = five_nodes\<lparr>visited := (visited five_nodes)[2 := DONE]\<rparr>\<rparr> =
     Inr (\<lparr>sum_g = 3, graph = five_nodes\<lparr>visited := (visited five_nodes)[2 := DONE]\<rparr>\<rparr>, [])"
    by (simp add: five_nodes_def)
  from process_graph_idempotent [of "[10 \<mapsto> 2]" 10 2
      "\<lparr>sum_g = 0, graph = five_nodes\<rparr>"
      "\<lparr>sum_g = 3, graph = five_nodes\<lparr>visited := (visited five_nodes)[2 := DONE]\<rparr>\<rparr>"
      "[0, 3]" "[10, 10, 10]"
      "\<lparr>sum_g = 3, graph = five_nodes\<lparr>visited := (visited five_nodes)[2 := DONE]\<rparr>\<rparr>"]
    one all again
  show ?thesis by simp
qed

section \<open>Schedules in which the submitted task is never run\<close>

text \<open>
  C2 fails on the code. Two workers call \<^verbatim>\<open>dequeue_task\<close> before the main thread has
  submitted anything: the first blocks, the second finds one worker waiting, sets
  \<^verbatim>\<open>stop_work\<close>, broadcasts and returns \<^verbatim>\<open>NULL\<close>, and the first, woken by the
  broadcast, returns \<^verbatim>\<open>NULL\<close> too. The main thread then submits a task and calls
  \<^verbatim>\<open>wait_for_completion\<close>: the loop of line 150 is skipped because \<^verbatim>\<open>stop_work\<close> is
  set, both joins return, and \<^verbatim>\<open>wait_for_completion\<close> is back with the task still in
  the queue and its action never called.
\<close>

theorem wait_for_completion_leaves_task_pending:
  "run [Dequeue 0, Dequeue 1, Wake 0, Enqueue Main process_graph_fn 100 None 0, Wait, Join]
     (start 2 0) =
   Some \<lparr>pool = \<lparr>num_threads = 2, head = [create_task 0 process_graph_fn 100 None],
                 waiting_threads = 0, stop_work = True\<rparr>,
         workers = [Returned, Returned], main_at = M_joined, brk = 1,
         submitted = [create_task 0 process_graph_fn 100 None], trace = []\<rparr>"
  by code_simp

text \<open>
  C3 fails on the code. On the five-node graph with the program's four workers the
  schedule \<open>seed_first\<close> visits every node and prints 15, and the schedule
  \<open>workers_first\<close> visits no node and prints 0: the task for node 0 is freed by
  \<^verbatim>\<open>destroy_threadpool\<close> without having run.
\<close>

theorem printed_sum_depends_on_schedule:
  "map_option (\<lambda>s. (printed s, visited (graph (globs s))))
     (prun seed_first (prog_start five_nodes NUM_THREADS)) =
     Some (Some 15, replicate 5 DONE) \<and>
   map_option (\<lambda>s. (printed s, visited (graph (globs s)), trace (tpsys s)))
     (prun workers_first (prog_start five_nodes NUM_THREADS)) =
     Some (Some 0, replicate 5 NOT_VISITED, [Free_task (create_task 1 process_graph_fn 0 None)])"
  by code_simp

end
